theory Spec2Isabelle
  imports Complex_Main "HOL-Library.Word" "HOL-Library.List_Lexorder" "HOL-Library.Sublist"
begin

section \<open>Strings of the host language\<close>

text \<open>
  The program is TypeScript: a string is a sequence of UTF-16 code units. The tree
  renderer writes box-drawing characters (above U+00FF) and the walker measures UTF-8
  lengths, so a code unit is a 16-bit word and a string is a list of them.
  \<open>js\<close> turns an ASCII literal into such a string.
\<close>

type_synonym char16 = "16 word"
type_synonym jsstring = "char16 list"

definition js :: "string \<Rightarrow> jsstring" where
  "js s = map of_char s"

abbreviation SLASH :: char16 where "SLASH \<equiv> 47"
abbreviation DOT :: char16 where "DOT \<equiv> 46"
abbreviation BACKTICK :: char16 where "BACKTICK \<equiv> 96"
abbreviation NEWLINE :: char16 where "NEWLINE \<equiv> 10"
abbreviation SPACE :: char16 where "SPACE \<equiv> 32"

text \<open>
  \<open>s.split(sep)\<close> for a one-character separator: the pieces between the occurrences of
  \<open>sep\<close>; the empty string gives one empty piece.
\<close>

fun split_on :: "char16 \<Rightarrow> jsstring \<Rightarrow> jsstring list" where
  "split_on sep [] = [[]]"
| "split_on sep (c # cs) =
     (if c = sep then [] # split_on sep cs
      else (case split_on sep cs of
              [] \<Rightarrow> [[c]]
            | s # ss \<Rightarrow> (c # s) # ss))"

text \<open>\<open>xs.pop()\<close> read for its value: the last element, \<open>undefined\<close> (None) on an empty array.\<close>

definition pop :: "'a list \<Rightarrow> 'a option" where
  "pop xs = (if xs = [] then None else Some (last xs))"

text \<open>\<open>xs[i]\<close>: \<open>undefined\<close> (None) outside the array, also for the index -1.\<close>

definition at_index :: "'a list \<Rightarrow> int \<Rightarrow> 'a option" where
  "at_index xs i = (if 0 \<le> i \<and> i < int (length xs) then Some (xs ! nat i) else None)"

text \<open>\<open>S.has(v)\<close> on a set of strings; \<open>undefined\<close> is a member of none of them.\<close>

definition has :: "jsstring set \<Rightarrow> jsstring option \<Rightarrow> bool" where
  "has S v = (case v of None \<Rightarrow> False | Some x \<Rightarrow> x \<in> S)"

text \<open>
  \<open>String.prototype.toLowerCase\<close> follows the Unicode case tables of the host, which are
  not part of the repository: the classifier takes it as a parameter. \<open>asciiToLowerCase\<close>
  is the function on the ASCII letters, all other code units unchanged; it agrees with the
  host on every ASCII string.
\<close>

definition asciiToLowerCase :: "jsstring \<Rightarrow> jsstring" where
  "asciiToLowerCase s = map (\<lambda>c. if 65 \<le> c \<and> c \<le> 90 then c + 32 else c) s"

section \<open>Entry classifier\<close>

definition TEXT_EXTENSIONS :: "jsstring set" where
  "TEXT_EXTENSIONS = set (map js
     [''js'', ''jsx'', ''ts'', ''tsx'', ''json'', ''css'', ''scss'', ''html'', ''md'', ''txt'',
      ''py'', ''java'', ''c'', ''cpp'', ''h'', ''cs'', ''go'', ''rs'', ''php'', ''rb'', ''sh'',
      ''yaml'', ''yml'', ''xml'', ''sql'', ''gitignore'', ''env'', ''dockerfile'', ''toml'',
      ''gradle'', ''properties''])"

definition IGNORE_DIRS :: "jsstring set" where
  "IGNORE_DIRS = set (map js
     [''.git'', ''node_modules'', ''dist'', ''build'', ''coverage'', ''.idea'', ''.vscode'',
      ''__pycache__'', ''bin'', ''obj''])"

definition IGNORE_FILES :: "jsstring set" where
  "IGNORE_FILES = set (map js
     [''package-lock.json'', ''yarn.lock'', ''pnpm-lock.yaml'', ''.DS_Store'', ''thumbs.db''])"

text \<open>The file names accepted without an extension (the array literal in \<open>isTextFile\<close>).\<close>

definition KNOWN_CONFIG_FILES :: "jsstring list" where
  "KNOWN_CONFIG_FILES = map js
     [''dockerfile'', ''makefile'', ''license'', ''jenkinsfile'', ''vagrantfile'']"

definition isTextFile :: "(jsstring \<Rightarrow> jsstring) \<Rightarrow> jsstring \<Rightarrow> bool" where
  "isTextFile toLowerCase filename =
     (case map_option toLowerCase (pop (split_on SLASH filename)) of
        None \<Rightarrow> False
      | Some basename \<Rightarrow>
          if basename = [] then False
          else if basename \<in> set KNOWN_CONFIG_FILES then True
          else
            let parts = split_on DOT basename in
            if length parts = 1 then False
            else (case pop parts of
                    None \<Rightarrow> False
                  | Some ext \<Rightarrow> if ext = [] then False else ext \<in> TEXT_EXTENSIONS))"

definition shouldIgnore :: "jsstring \<Rightarrow> bool" where
  "shouldIgnore path =
     (let parts = split_on SLASH path in
      if list_ex (\<lambda>part. part \<in> IGNORE_DIRS) parts then True
      else
        let filename = at_index parts (int (length parts) - 1) in
        if has IGNORE_FILES filename then True else False)"

subsection \<open>The earlier revision of the ignore rule\<close>

definition IGNORE_DIRS_earlier :: "jsstring set" where
  "IGNORE_DIRS_earlier = set (map js
     [''.git'', ''node_modules'', ''dist'', ''build'', ''coverage'', ''.idea'', ''.vscode'',
      ''__pycache__''])"

definition IGNORE_FILES_earlier :: "jsstring set" where
  "IGNORE_FILES_earlier = set (map js
     [''package-lock.json'', ''yarn.lock'', ''pnpm-lock.yaml'', ''.DS_Store''])"

definition shouldIgnore_earlier :: "jsstring \<Rightarrow> bool" where
  "shouldIgnore_earlier path =
     (let parts = split_on SLASH path in
      if list_ex (\<lambda>part. part \<in> IGNORE_DIRS_earlier) parts then True
      else
        let filename = at_index parts (int (length parts) - 1) in
        if has IGNORE_FILES_earlier filename then True else False)"

section \<open>Document packer\<close>

record ProcessedFile =
  path :: jsstring
  content :: jsstring
  extension :: jsstring

text \<open>
  \<open>content.match(/`+/g)\<close>: the maximal runs of backticks, left to right; \<open>null\<close> (None)
  when there is none. \<open>scanBackticks run cs\<close> holds the run being read in \<open>run\<close>.
\<close>

fun scanBackticks :: "jsstring \<Rightarrow> jsstring \<Rightarrow> jsstring list" where
  "scanBackticks run [] = (if run = [] then [] else [run])"
| "scanBackticks run (c # cs) =
     (if c = BACKTICK then scanBackticks (run @ [c]) cs
      else (if run = [] then [] else [run]) @ scanBackticks [] cs)"

definition matchBackticks :: "jsstring \<Rightarrow> jsstring list option" where
  "matchBackticks s = (let ms = scanBackticks [] s in if ms = [] then None else Some ms)"

text \<open>One turn of the loop over the matches.\<close>

definition fenceStep :: "jsstring \<Rightarrow> nat \<Rightarrow> nat" where
  "fenceStep match fenceLength =
     (if length match \<ge> fenceLength then length match + 1 else fenceLength)"

definition fenceLengthFor :: "jsstring \<Rightarrow> nat" where
  "fenceLengthFor s =
     (case matchBackticks s of
        None \<Rightarrow> 3
      | Some backticks \<Rightarrow> fold fenceStep backticks 3)"

definition fenceFor :: "jsstring \<Rightarrow> jsstring" where
  "fenceFor s = replicate (fenceLengthFor s) BACKTICK"

text \<open>What one turn of \<open>files.forEach\<close> appends to the document.\<close>

definition fileSection :: "ProcessedFile \<Rightarrow> jsstring" where
  "fileSection f =
     (let fence = fenceFor (content f) in
      js ''### '' @ path f @ [NEWLINE]
      @ fence @ extension f @ [NEWLINE]
      @ content f
      @ [NEWLINE] @ fence @ [NEWLINE, NEWLINE])"

text \<open>
  The two section headings carry an emoji each (U+1F4C2 and U+1F4BB), a surrogate pair
  in UTF-16.
\<close>

definition documentHeader :: "jsstring \<Rightarrow> jsstring \<Rightarrow> jsstring" where
  "documentHeader repoName tree =
     js ''# Project: '' @ repoName @ [NEWLINE, NEWLINE]
     @ js ''## '' @ [55357, 56514] @ js '' Project Structure'' @ [NEWLINE, NEWLINE]
     @ js ''```'' @ [NEWLINE] @ tree @ [NEWLINE] @ js ''```'' @ [NEWLINE, NEWLINE]
     @ js ''## '' @ [55357, 56507] @ js '' File Contents'' @ [NEWLINE, NEWLINE]"

definition createMarkdownContent :: "jsstring \<Rightarrow> jsstring \<Rightarrow> ProcessedFile list \<Rightarrow> jsstring" where
  "createMarkdownContent repoName tree files =
     fold (\<lambda>f md. md @ fileSection f) files (documentHeader repoName tree)"

section \<open>Tree renderer\<close>

text \<open>
  \<open>generateTreeString\<close> keeps the tree in object literals: \<open>const tree = {}\<close>, and
  \<open>current[part] = {}\<close> for a segment that \<open>current[part]\<close> does not find. An object made
  by \<open>{}\<close> is no bare dictionary: a property it does not own is looked up in
  \<open>Object.prototype\<close>, which all these objects share and which outlives the call, and
  \<open>Object.prototype\<close> has functions, which are objects too and take properties.
  The model keeps all of it: a \<open>node\<close> is an object made by \<open>{}\<close> with the properties it
  owns, in creation order, each holding the object made for it (every such object is
  referenced by exactly one property, so holding it in place loses nothing). The realm
  is what outlives a call: the properties that walks have added to \<open>Object.prototype\<close> and
  to each of its functions (a function is named by the property of \<open>Object.prototype\<close>
  that holds it). The heap of a call is the root object \<open>tree\<close> and the realm.
\<close>

datatype node = Node (props: "(jsstring \<times> node) list")

record realm =
  objectPrototype :: node
  functionProps :: "jsstring \<Rightarrow> node"

record heap =
  treeRoot :: node
  shared :: realm

text \<open>
  A reference is the chain of own properties that leads to an object: from \<open>tree\<close>, from
  \<open>Object.prototype\<close> (\<open>InProto []\<close> is \<open>Object.prototype\<close> itself), or from one of the
  functions of \<open>Object.prototype\<close> (\<open>InFunction f []\<close> is the function itself).
\<close>

datatype ref = InTree "jsstring list" | InProto "jsstring list" | InFunction jsstring "jsstring list"

datatype jsval = Undefined | Null | Ref ref

datatype error = CannotOpenZip | DecodeFailed | TypeError

text \<open>
  The names that ECMAScript gives from the start: the functions of \<open>Object.prototype\<close>
  (besides them it has the accessor \<open>__proto__\<close>); the properties that every function has
  of its own or from \<open>Function.prototype\<close>; and the functions of the constructor \<open>Object\<close>,
  which is what \<open>Object.prototype.constructor\<close> holds.
\<close>

definition OBJECT_PROTOTYPE_FUNCTIONS :: "jsstring list" where
  "OBJECT_PROTOTYPE_FUNCTIONS = map js
     [''constructor'', ''__defineGetter__'', ''__defineSetter__'', ''hasOwnProperty'',
      ''__lookupGetter__'', ''__lookupSetter__'', ''isPrototypeOf'', ''propertyIsEnumerable'',
      ''toString'', ''valueOf'', ''toLocaleString'']"

definition FUNCTION_PROPERTIES :: "jsstring list" where
  "FUNCTION_PROPERTIES = map js
     [''length'', ''name'', ''apply'', ''bind'', ''call'', ''constructor'', ''toString'',
      ''caller'', ''arguments'']"

definition OBJECT_FUNCTIONS :: "jsstring list" where
  "OBJECT_FUNCTIONS = map js
     [''assign'', ''create'', ''defineProperties'', ''defineProperty'', ''entries'', ''freeze'',
      ''fromEntries'', ''getOwnPropertyDescriptor'', ''getOwnPropertyDescriptors'',
      ''getOwnPropertyNames'', ''getOwnPropertySymbols'', ''getPrototypeOf'', ''groupBy'',
      ''hasOwn'', ''is'', ''isExtensible'', ''isFrozen'', ''isSealed'', ''keys'',
      ''preventExtensions'', ''seal'', ''setPrototypeOf'', ''values'']"

definition descend :: "node \<Rightarrow> jsstring list \<Rightarrow> node option" where
  "descend n ks =
     fold (\<lambda>k found. case found of None \<Rightarrow> None | Some m \<Rightarrow> map_of (props m) k) ks (Some n)"

definition objectAt :: "heap \<Rightarrow> ref \<Rightarrow> node option" where
  "objectAt h r =
     (case r of
        InTree ks \<Rightarrow> descend (treeRoot h) ks
      | InProto ks \<Rightarrow> descend (objectPrototype (shared h)) ks
      | InFunction f ks \<Rightarrow> descend (functionProps (shared h) f) ks)"

definition hasOwn :: "heap \<Rightarrow> ref \<Rightarrow> jsstring \<Rightarrow> bool" where
  "hasOwn h r k = (case objectAt h r of None \<Rightarrow> False | Some m \<Rightarrow> map_of (props m) k \<noteq> None)"

definition child :: "ref \<Rightarrow> jsstring \<Rightarrow> ref" where
  "child r k =
     (case r of
        InTree ks \<Rightarrow> InTree (ks @ [k])
      | InProto ks \<Rightarrow> InProto (ks @ [k])
      | InFunction f ks \<Rightarrow> InFunction f (ks @ [k]))"

text \<open>
  What \<open>Object.prototype\<close> gives to an object that does not own \<open>k\<close>, the accessor
  \<open>__proto__\<close> apart: a property a walk has added to it, or one of its functions.
\<close>

definition inherited :: "heap \<Rightarrow> jsstring \<Rightarrow> jsval" where
  "inherited h k =
     (if hasOwn h (InProto []) k then Ref (InProto [k])
      else if k \<in> set OBJECT_PROTOTYPE_FUNCTIONS then Ref (InFunction k [])
      else Undefined)"

text \<open>
  \<open>current[part]\<close>. Either the value, or the function whose built-in property it is: what
  such a property holds (a number, a string, another function, \<open>Function.prototype\<close>, an
  accessor that throws) is the host's. An own property that a walk has made comes first.
  For a function, the built-in properties come next, of which the model knows one,
  \<open>Object.prototype.constructor.prototype\<close>, which is \<open>Object.prototype\<close>. The accessor
  \<open>__proto__\<close> gives the prototype of the receiver: \<open>null\<close> for \<open>Object.prototype\<close>, and
  \<open>Object.prototype\<close> for an object made by \<open>{}\<close>.
\<close>

datatype lookup = Has jsval | HostProperty jsstring

definition getProp :: "heap \<Rightarrow> ref \<Rightarrow> jsstring \<Rightarrow> lookup" where
  "getProp h r k =
     (if hasOwn h r k then Has (Ref (child r k))
      else
        (case r of
           InFunction f [] \<Rightarrow>
             if f = js ''constructor'' \<and> k = js ''prototype'' then Has (Ref (InProto []))
             else if k = js ''__proto__'' \<or> k \<in> set FUNCTION_PROPERTIES
                     \<or> (f = js ''constructor'' \<and> k \<in> set OBJECT_FUNCTIONS)
             then HostProperty f
             else Has (inherited h k)
         | InProto [] \<Rightarrow>
             if k = js ''__proto__'' then Has Null else Has (inherited h k)
         | _ \<Rightarrow>
             if k = js ''__proto__'' then Has (Ref (InProto [])) else Has (inherited h k)))"

text \<open>\<open>graft n ks k\<close>: the object reached from \<open>n\<close> through \<open>ks\<close> gets the new own property \<open>k\<close>, an empty object.\<close>

fun graft :: "node \<Rightarrow> jsstring list \<Rightarrow> jsstring \<Rightarrow> node" where
  "graft (Node ps) [] k = Node (ps @ [(k, Node [])])"
| "graft (Node ps) (x # xs) k =
     Node (map (\<lambda>(k', c). if k' = x then (k', graft c xs k) else (k', c)) ps)"

definition defineProp :: "heap \<Rightarrow> ref \<Rightarrow> jsstring \<Rightarrow> heap" where
  "defineProp h r k =
     (case r of
        InTree ks \<Rightarrow> h\<lparr>treeRoot := graft (treeRoot h) ks k\<rparr>
      | InProto ks \<Rightarrow>
          h\<lparr>shared := (shared h)\<lparr>objectPrototype := graft (objectPrototype (shared h)) ks k\<rparr>\<rparr>
      | InFunction f ks \<Rightarrow>
          h\<lparr>shared := (shared h)\<lparr>functionProps :=
               (functionProps (shared h))(f := graft (functionProps (shared h) f) ks k)\<rparr>\<rparr>)"

text \<open>
  One turn of \<open>parts.forEach\<close>: \<open>if (!current[part]) current[part] = {}; current = current[part]\<close>.
  Reading a property of \<open>undefined\<close> or \<open>null\<close> throws. \<open>current[part]\<close> is \<open>undefined\<close> only
  for a name found nowhere on the chain, and the assignment then makes an own property of
  \<open>current\<close>, also when \<open>current\<close> is a function. It is \<open>null\<close> only as
  \<open>Object.prototype.__proto__\<close>, and the assignment then calls the setter of \<open>__proto__\<close>,
  which throws a TypeError (the prototype of \<open>Object.prototype\<close> cannot be changed). An
  object or a function is truthy, and the walk goes on from it. At a built-in property of
  a function the turn is the host's.
\<close>

datatype step = Goes heap jsval | Throws heap error | HostDecides jsstring

definition visit :: "heap \<Rightarrow> jsval \<Rightarrow> jsstring \<Rightarrow> step" where
  "visit h current part =
     (case current of
        Undefined \<Rightarrow> Throws h TypeError
      | Null \<Rightarrow> Throws h TypeError
      | Ref r \<Rightarrow>
          (case getProp h r part of
             HostProperty f \<Rightarrow> HostDecides f
           | Has Undefined \<Rightarrow>
               (let h' = defineProp h r part in
                case getProp h' r part of
                  HostProperty f \<Rightarrow> HostDecides f
                | Has v \<Rightarrow> Goes h' v)
           | Has Null \<Rightarrow> Throws h TypeError
           | Has (Ref r') \<Rightarrow> Goes h (Ref r')))"

text \<open>
  The walk of one path and of all paths. The host is a parameter: from a built-in
  property of the function \<open>f\<close>, \<open>host\<close> says what the rest of the walk of this path, the
  segments \<open>part # parts\<close>, makes of the realm and whether it throws. It cannot change the
  objects of \<open>tree\<close>, which nothing in the realm refers to.
\<close>

type_synonym host = "realm \<Rightarrow> jsstring \<Rightarrow> jsstring list \<Rightarrow> realm \<times> error option"

fun insertParts :: "host \<Rightarrow> heap \<Rightarrow> jsval \<Rightarrow> jsstring list \<Rightarrow> heap \<times> error option" where
  "insertParts host h current [] = (h, None)"
| "insertParts host h current (part # parts) =
     (case visit h current part of
        Goes h' current' \<Rightarrow> insertParts host h' current' parts
      | Throws h' e \<Rightarrow> (h', Some e)
      | HostDecides f \<Rightarrow>
          (case host (shared h) f (part # parts) of
             (realm1, thrown) \<Rightarrow> (h\<lparr>shared := realm1\<rparr>, thrown)))"

fun insertPaths :: "host \<Rightarrow> heap \<Rightarrow> jsstring list \<Rightarrow> heap \<times> error option" where
  "insertPaths host h [] = (h, None)"
| "insertPaths host h (p # paths) =
     (case insertParts host h (Ref (InTree [])) (split_on SLASH p) of
        (h', Some e) \<Rightarrow> (h', Some e)
      | (h', None) \<Rightarrow> insertPaths host h' paths)"

text \<open>
  \<open>printTree\<close>. \<open>Object.keys(node).sort()\<close> orders the own keys by their UTF-16 code units
  (the order of \<open>jsstring\<close>); the order in which \<open>Object.keys\<close> lists them does not survive
  the sort.
\<close>

abbreviation LAST_CONNECTOR :: jsstring where "LAST_CONNECTOR \<equiv> [9492, 9472, 9472, 32]"
abbreviation MID_CONNECTOR :: jsstring where "MID_CONNECTOR \<equiv> [9500, 9472, 9472, 32]"
abbreviation LAST_PREFIX :: jsstring where "LAST_PREFIX \<equiv> [32, 32, 32, 32]"
abbreviation MID_PREFIX :: jsstring where "MID_PREFIX \<equiv> [9474, 32, 32, 32]"

function printTree :: "node \<Rightarrow> jsstring \<Rightarrow> jsstring" where
  "printTree (Node ps) indent =
     (let keys = sort (map fst ps) in
      fold (\<lambda>(index, key) output.
              case map_of ps key of
                None \<Rightarrow> output
              | Some sub \<Rightarrow>
                  let isLast = (int index = int (length keys) - 1);
                      connector = (if isLast then LAST_CONNECTOR else MID_CONNECTOR);
                      childPrefix = (if isLast then LAST_PREFIX else MID_PREFIX);
                      isFile = (length (map fst (props sub)) = 0);
                      output1 = output @ indent @ connector @ key
                                @ (if isFile then [] else [SLASH]) @ [NEWLINE]
                  in if \<not> isFile then output1 @ printTree sub (indent @ childPrefix)
                     else output1)
           (enumerate 0 keys) [])"
  by pat_completeness auto
termination
proof (relation "measure (\<lambda>(n, _). size n)")
  show "wf (measure (\<lambda>(n, _). size n))"
    by simp
next
  fix ps :: "(jsstring \<times> node) list" and key sub indent childPrefix
  assume "map_of ps key = Some sub"
  then have "size sub < Suc (size_list (size_prod (\<lambda>_. 0) size) ps)"
    by (induction ps) (auto split: if_splits)
  then show "((sub, indent @ childPrefix), (Node ps, indent)) \<in> measure (\<lambda>(n, _). size n)"
    by simp
qed

text \<open>\<open>String.prototype.trim\<close>: white space and line terminators of ECMAScript, at both ends.\<close>

definition isWhiteSpace :: "char16 \<Rightarrow> bool" where
  "isWhiteSpace c \<longleftrightarrow>
     c \<in> set [9, 10, 11, 12, 13, 32, 160, 5760, 8192, 8193, 8194, 8195, 8196, 8197, 8198,
              8199, 8200, 8201, 8202, 8232, 8233, 8239, 8287, 12288, 65279]"

definition trim :: "jsstring \<Rightarrow> jsstring" where
  "trim s = rev (dropWhile isWhiteSpace (rev (dropWhile isWhiteSpace s)))"

text \<open>
  \<open>generateTreeString\<close>, from the realm it finds to the one it leaves, with the string or
  the exception. \<open>freshRealm\<close> is the realm before any walk.
\<close>

definition generateTreeString :: "host \<Rightarrow> realm \<Rightarrow> jsstring list \<Rightarrow> realm \<times> (error + jsstring)" where
  "generateTreeString host realm0 paths =
     (case insertPaths host \<lparr>treeRoot = Node [], shared = realm0\<rparr> paths of
        (h, Some e) \<Rightarrow> (shared h, Inl e)
      | (h, None) \<Rightarrow> (shared h, Inr (trim (printTree (treeRoot h) []))))"

definition freshRealm :: realm where
  "freshRealm = \<lparr>objectPrototype = Node [], functionProps = (\<lambda>f. Node [])\<rparr>"

subsection \<open>What a tree object stands for\<close>

text \<open>
  For the proofs: the chains of keys that lead from an object to the objects below it,
  and the objects whose keys are distinct at every level, as the own keys of a
  JavaScript object are.
\<close>

fun keyPaths :: "node \<Rightarrow> jsstring list set" where
  "keyPaths (Node ps) = (\<Union>(k, c) \<in> set ps. insert [k] ((#) k ` keyPaths c))"

fun wellFormed :: "node \<Rightarrow> bool" where
  "wellFormed (Node ps) \<longleftrightarrow> distinct (map fst ps) \<and> (\<forall>(k, c) \<in> set ps. wellFormed c)"

text \<open>
  A segment that names nothing an empty object inherits, and a path of such segments.
\<close>

definition plainSegment :: "jsstring \<Rightarrow> bool" where
  "plainSegment k \<longleftrightarrow> k \<noteq> js ''__proto__'' \<and> k \<notin> set OBJECT_PROTOTYPE_FUNCTIONS"

definition plainPath :: "jsstring \<Rightarrow> bool" where
  "plainPath p \<longleftrightarrow> list_all plainSegment (split_on SLASH p)"

section \<open>Archive walker\<close>

text \<open>
  The archive comes from the JSZip library: \<open>zip.loadAsync(file)\<close> either rejects (None)
  or gives the entries, here in the order of \<open>Object.keys(loadedZip.files)\<close>. An entry has
  its name, the flag \<open>dir\<close>, and the string that \<open>zipEntry.async('string')\<close> resolves to
  (None when it rejects).
\<close>

record entry =
  name :: jsstring
  dir :: bool
  decoded :: "jsstring option"

text \<open>
  \<open>new TextEncoder().encode(s).length\<close>: the number of bytes of the UTF-8 encoding. A
  surrogate pair is one code point of four bytes; a surrogate without its partner is
  encoded as U+FFFD, three bytes.
\<close>

definition isHighSurrogate :: "char16 \<Rightarrow> bool" where
  "isHighSurrogate c \<longleftrightarrow> 55296 \<le> c \<and> c \<le> 56319"

definition isLowSurrogate :: "char16 \<Rightarrow> bool" where
  "isLowSurrogate c \<longleftrightarrow> 56320 \<le> c \<and> c \<le> 57343"

definition unitBytes :: "char16 \<Rightarrow> nat" where
  "unitBytes c = (if c < 128 then 1 else if c < 2048 then 2 else 3)"

fun byteLength :: "jsstring \<Rightarrow> nat" where
  "byteLength [] = 0"
| "byteLength [c] = unitBytes c"
| "byteLength (c # d # cs) =
     (if isHighSurrogate c \<and> isLowSurrogate d then 4 + byteLength cs
      else unitBytes c + byteLength (d # cs))"

text \<open>
  The calls of \<open>onProgress\<close>, in order. The messages are Russian text in the source; the
  model keeps which message it is, and the file name shown in the last one.
\<close>

datatype message = ReadingZip | EmptyArchive | Analysing | Processing "jsstring option"

type_synonym progressCall = "int \<times> message"

record stats =
  fileCount :: nat
  totalSize :: nat
  tokenEstimate :: int

record packed =
  files :: "ProcessedFile list"
  tree :: jsstring
  stats :: stats

text \<open>
  \<open>10 + Math.floor((processedCount / totalFiles) * 80)\<close> and \<open>Math.ceil(totalSize / 4)\<close>,
  in exact arithmetic. The source computes in doubles: the division by 4 is exact there,
  and the floor of the product is the exact one as long as the counts stay far below
  \<open>2 ^ 40\<close>.
\<close>

definition walkProgress :: "nat \<Rightarrow> nat \<Rightarrow> int" where
  "walkProgress processedCount totalFiles =
     10 + \<lfloor>(of_nat processedCount / of_nat totalFiles :: rat) * 80\<rfloor>"

definition estimateTokens :: "nat \<Rightarrow> int" where
  "estimateTokens bytes = \<lceil>(of_nat bytes :: rat) / 4\<rceil>"

record walkState =
  processedCount :: nat
  paths :: "jsstring list"
  collected :: "ProcessedFile list"
  sizeSoFar :: nat
  reported :: "progressCall list"

text \<open>The loop over the entries; it ends early when an entry cannot be decoded.\<close>

fun walk ::
  "(jsstring \<Rightarrow> jsstring) \<Rightarrow> nat \<Rightarrow> entry list \<Rightarrow> walkState \<Rightarrow> walkState \<times> error option"
where
  "walk toLowerCase totalFiles [] s = (s, None)"
| "walk toLowerCase totalFiles (zipEntry # rest) s =
     (let filename = name zipEntry;
          count = processedCount s + 1;
          s1 = s\<lparr>processedCount := count\<rparr>;
          s2 = (if totalFiles > 0 \<and> (count mod 5 = 0 \<or> count = totalFiles)
                then s1\<lparr>reported := reported s1 @
                        [(walkProgress count totalFiles,
                          Processing (pop (split_on SLASH filename)))]\<rparr>
                else s1)
      in if dir zipEntry then walk toLowerCase totalFiles rest s2
         else if shouldIgnore filename then walk toLowerCase totalFiles rest s2
         else if isTextFile toLowerCase filename then
           (let s3 = s2\<lparr>paths := paths s2 @ [filename]\<rparr> in
            case decoded zipEntry of
              None \<Rightarrow> (s3, Some DecodeFailed)
            | Some text \<Rightarrow>
                walk toLowerCase totalFiles rest
                  (s3\<lparr>sizeSoFar := sizeSoFar s3 + byteLength text,
                      collected := collected s3 @
                        [\<lparr>path = filename, content = text,
                          extension = (case pop (split_on DOT filename) of
                                         None \<Rightarrow> []
                                       | Some ext \<Rightarrow> ext)\<rparr>]\<rparr>))
         else walk toLowerCase totalFiles rest s2)"

text \<open>The state of the loop when it starts, after the first two calls of \<open>onProgress\<close>.\<close>

abbreviation walkStart :: walkState where
  "walkStart \<equiv> \<lparr>processedCount = 0, paths = [], collected = [], sizeSoFar = 0,
                 reported = [(5, ReadingZip), (10, Analysing)]\<rparr>"

text \<open>
  \<open>processZipFile\<close>: what it reports through \<open>onProgress\<close>, what it returns or throws, and
  the realm it leaves.
\<close>

record run =
  progress :: "progressCall list"
  outcome :: "error + packed"
  realmAfter :: realm

definition processZipFile ::
  "(jsstring \<Rightarrow> jsstring) \<Rightarrow> host \<Rightarrow> realm \<Rightarrow> entry list option \<Rightarrow> run" where
  "processZipFile toLowerCase host realm0 archive =
     (case archive of
        None \<Rightarrow>
          \<lparr>progress = [(5, ReadingZip)], outcome = Inl CannotOpenZip, realmAfter = realm0\<rparr>
      | Some fileEntries \<Rightarrow>
          let totalFiles = length fileEntries in
          if totalFiles = 0 then
            \<lparr>progress = [(5, ReadingZip), (100, EmptyArchive)],
             outcome = Inr \<lparr>files = [], tree = js ''(Empty Archive)'',
                            stats = \<lparr>fileCount = 0, totalSize = 0, tokenEstimate = 0\<rparr>\<rparr>,
             realmAfter = realm0\<rparr>
          else
            (case walk toLowerCase totalFiles fileEntries walkStart of
               (s, Some e) \<Rightarrow> \<lparr>progress = reported s, outcome = Inl e, realmAfter = realm0\<rparr>
             | (s, None) \<Rightarrow>
                 (case generateTreeString host realm0 (paths s) of
                    (realm1, Inl e) \<Rightarrow>
                      \<lparr>progress = reported s, outcome = Inl e, realmAfter = realm1\<rparr>
                  | (realm1, Inr rendered) \<Rightarrow>
                      \<lparr>progress = reported s,
                       outcome = Inr \<lparr>files = collected s, tree = rendered,
                                      stats = \<lparr>fileCount = length (collected s),
                                               totalSize = sizeSoFar s,
                                               tokenEstimate = estimateTokens (sizeSoFar s)\<rparr>\<rparr>,
                       realmAfter = realm1\<rparr>)))"

text \<open>
  A host for the examples in which no walk comes to a built-in property of a function:
  it leaves the realm as it is and throws nothing.
\<close>

definition idleHost :: host where
  "idleHost r f parts = (r, None)"

section \<open>Properties of the string operations\<close>

lemma split_on_not_Nil: "split_on sep s \<noteq> []"
  by (induction s) (auto split: list.splits)

lemma split_on_no_sep: "sep \<notin> set s \<Longrightarrow> split_on sep s = [s]"
  by (induction s) auto

lemma split_on_append: "split_on sep (a @ sep # b) = split_on sep a @ split_on sep b"
  by (induction a) (auto split: list.splits simp: split_on_not_Nil)

lemma split_on_length_one: "length (split_on sep s) = 1 \<longleftrightarrow> sep \<notin> set s"
proof (induction s)
  case Nil show ?case by simp
next
  case (Cons c cs)
  show ?case
  proof (cases "c = sep")
    case True
    then show ?thesis by (simp add: split_on_not_Nil)
  next
    case False
    then show ?thesis using Cons by (auto split: list.splits simp: split_on_not_Nil)
  qed
qed

lemma split_on_segments_no_sep: "seg \<in> set (split_on sep s) \<Longrightarrow> sep \<notin> set seg"
  by (induction s arbitrary: seg) (auto split: list.splits if_splits)

lemma split_on_last_suffix: "\<exists>pre. s = pre @ last (split_on sep s) \<and> (pre = [] \<or> last pre = sep)"
proof (induction s)
  case Nil show ?case by simp
next
  case (Cons c cs)
  then obtain pre where pre: "cs = pre @ last (split_on sep cs)" "pre = [] \<or> last pre = sep" by blast
  show ?case
  proof (cases "c = sep")
    case True
    have "c # cs = (c # pre) @ last (split_on sep (c # cs))" using True pre(1) by (simp add: split_on_not_Nil)
    moreover have "last (c # pre) = sep" using True pre(2) by auto
    ultimately show ?thesis by blast
  next
    case False
    obtain x xs where sp: "split_on sep cs = x # xs" using split_on_not_Nil[of sep cs] by (cases "split_on sep cs") auto
    show ?thesis
    proof (cases xs)
      case Nil
      then have "last (split_on sep (c # cs)) = c # cs" using False sp split_on_length_one[of sep cs] split_on_no_sep[of sep cs] by auto
      then show ?thesis by (metis append_Nil)
    next
      case (Cons y ys)
      then have l: "last (split_on sep (c # cs)) = last (split_on sep cs)" using False sp by simp
      have "pre \<noteq> []" 
      proof
        assume "pre = []"
        then have "cs = last (split_on sep cs)" using pre(1) by simp
        then have "cs \<in> set (split_on sep cs)" using split_on_not_Nil[of sep cs] by (metis last_in_set)
        then have "sep \<notin> set cs" by (rule split_on_segments_no_sep)
        then show False using split_on_no_sep[of sep cs] sp Cons by simp
      qed
      then have "c # cs = (c # pre) @ last (split_on sep (c # cs)) \<and> last (c # pre) = sep" using pre l by auto
      then show ?thesis by blast
    qed
  qed
qed

lemma last_split_on_append: "last (split_on sep (a @ sep # b)) = last (split_on sep b)"
  by (simp add: split_on_append split_on_not_Nil)

section \<open>Properties of the classifier\<close>

lemma empty_not_ignored_dir: "[] \<notin> IGNORE_DIRS"
  by (simp add: IGNORE_DIRS_def js_def)

lemma empty_not_ignored_file: "[] \<notin> IGNORE_FILES"
  by (simp add: IGNORE_FILES_def js_def)

lemma shouldIgnore_iff:
  "shouldIgnore p \<longleftrightarrow>
     (\<exists>seg \<in> set (split_on SLASH p). seg \<in> IGNORE_DIRS) \<or> last (split_on SLASH p) \<in> IGNORE_FILES"
proof -
  have "split_on SLASH p \<noteq> []" by (rule split_on_not_Nil)
  then have "at_index (split_on SLASH p) (int (length (split_on SLASH p)) - 1) = Some (last (split_on SLASH p))"
    by (cases "split_on SLASH p" rule: rev_cases) (auto simp: at_index_def nth_append)
  then show ?thesis
    by (simp add: shouldIgnore_def Let_def list_ex_iff has_def)
qed

lemma shouldIgnore_prefix:
   "shouldIgnore (d @ SLASH # p) \<longleftrightarrow> (\<exists>seg \<in> set (split_on SLASH d). seg \<in> IGNORE_DIRS) \<or> shouldIgnore p"
  by (auto simp: shouldIgnore_iff split_on_append split_on_not_Nil)

lemma shouldIgnore_leading: "shouldIgnore (SLASH # p) = shouldIgnore p"
  using shouldIgnore_prefix[of "[]" p] by (simp add: empty_not_ignored_dir)

lemma shouldIgnore_trailing: "shouldIgnore (p @ [SLASH]) \<longleftrightarrow> (\<exists>seg \<in> set (split_on SLASH p). seg \<in> IGNORE_DIRS)"
  by (auto simp: shouldIgnore_iff split_on_append empty_not_ignored_dir empty_not_ignored_file)

lemma ascii_lower_dot: "DOT \<in> set (asciiToLowerCase s) \<longleftrightarrow> DOT \<in> set s"
proof -
  have "\<And>c::char16. 65 \<le> c \<Longrightarrow> c \<le> 90 \<Longrightarrow> c + 32 \<noteq> 46 \<and> c \<noteq> 46"
    by unat_arith
  then show ?thesis
  by (induction s) (auto simp: asciiToLowerCase_def)
qed

lemma slashes_split: "set p \<subseteq> {sep} \<Longrightarrow> split_on sep p = replicate (Suc (length p)) []"
  by (induction p) auto

lemma sets_grow: "IGNORE_DIRS = IGNORE_DIRS_earlier \<union> {js ''bin'', js ''obj''} \<and> IGNORE_FILES = IGNORE_FILES_earlier \<union> {js ''thumbs.db''}"
  by (auto simp: IGNORE_DIRS_def IGNORE_DIRS_earlier_def IGNORE_FILES_def IGNORE_FILES_earlier_def)

text \<open>
  Claim C3, as the code has it. For every path, \<open>shouldIgnore\<close> is true exactly when some
  segment between slashes is an ignored directory name or the last segment is an ignored
  file name. A slash in front, or any directories in front that are not ignored ones,
  leave the answer as it is. A slash at the end makes the last segment empty: the answer
  is then true exactly when some segment is an ignored directory name, and the file names
  no longer count.
\<close>

theorem shouldIgnore_segments:
  "(shouldIgnore p \<longleftrightarrow>
      (\<exists>seg \<in> set (split_on SLASH p). seg \<in> IGNORE_DIRS)
      \<or> last (split_on SLASH p) \<in> IGNORE_FILES)
   \<and> shouldIgnore (SLASH # p) = shouldIgnore p
   \<and> (shouldIgnore (d @ SLASH # p) \<longleftrightarrow>
        (\<exists>seg \<in> set (split_on SLASH d). seg \<in> IGNORE_DIRS) \<or> shouldIgnore p)
   \<and> (shouldIgnore (p @ [SLASH]) \<longleftrightarrow>
        (\<exists>seg \<in> set (split_on SLASH p). seg \<in> IGNORE_DIRS))"
  using shouldIgnore_iff [of p] shouldIgnore_leading [of p] shouldIgnore_prefix [of d p]
    shouldIgnore_trailing [of p]
  by blast

theorem shouldIgnore_segments_witness:
  "shouldIgnore (js ''src/yarn.lock'')
   \<and> shouldIgnore (SLASH # js ''src/yarn.lock'')
   \<and> shouldIgnore (js ''lib'' @ SLASH # js ''src/yarn.lock'')
   \<and> \<not> shouldIgnore (js ''src/yarn.lock'' @ [SLASH])"
proof -
  have here: "shouldIgnore (js ''src/yarn.lock'')"
    by code_simp
  have none: "\<not> (\<exists>seg \<in> set (split_on SLASH (js ''src/yarn.lock'')). seg \<in> IGNORE_DIRS)"
    by code_simp
  from here none shouldIgnore_segments [of "js ''src/yarn.lock''" "js ''lib''"]
  show ?thesis by blast
qed

text \<open>
  Claim C3 as it is written says more: that the answer does not depend on a slash at the
  end. It does: \<open>yarn.lock\<close> is ignored, \<open>yarn.lock/\<close> is not.
\<close>

theorem shouldIgnore_trailing_slash_counterexample:
  "shouldIgnore (js ''yarn.lock'') \<and> \<not> shouldIgnore (js ''yarn.lock'' @ [SLASH])"
  by code_simp

text \<open>
  Claim C4. A file name whose last segment has no dot, and whose lower-cased last segment
  is none of the five known names, is not a text file. Lower-casing is the host's; all
  that is asked of it is that it brings no dot into a string that has none.
\<close>

theorem isTextFile_extensionless_false:
  assumes "\<And>s. DOT \<notin> set s \<Longrightarrow> DOT \<notin> set (toLowerCase s)"
    and "DOT \<notin> set (last (split_on SLASH f))"
    and "toLowerCase (last (split_on SLASH f)) \<notin> set KNOWN_CONFIG_FILES"
  shows "\<not> isTextFile toLowerCase f"
proof -
  have "DOT \<notin> set (toLowerCase (last (split_on SLASH f)))"
    using assms(1,2) by blast
  then have "length (split_on DOT (toLowerCase (last (split_on SLASH f)))) = 1"
    by (simp add: split_on_no_sep)
  then show ?thesis
    using assms(3) by (simp add: isTextFile_def pop_def split_on_not_Nil Let_def)
qed

theorem isTextFile_extensionless_false_witness:
  "DOT \<notin> set (last (split_on SLASH (js ''src/README'')))
   \<and> asciiToLowerCase (last (split_on SLASH (js ''src/README''))) \<notin> set KNOWN_CONFIG_FILES
   \<and> \<not> isTextFile asciiToLowerCase (js ''src/README'')"
proof -
  have nodot: "DOT \<notin> set (last (split_on SLASH (js ''src/README'')))"
    by code_simp
  have unknown:
    "asciiToLowerCase (last (split_on SLASH (js ''src/README''))) \<notin> set KNOWN_CONFIG_FILES"
    by code_simp
  have "\<not> isTextFile asciiToLowerCase (js ''src/README'')"
    using isTextFile_extensionless_false [of asciiToLowerCase "js ''src/README''"]
      ascii_lower_dot nodot unknown
    by blast
  with nodot unknown show ?thesis by blast
qed

text \<open>
  Claim C9. Both predicates are functions of the string alone, with no operation that
  can throw: \<open>pop()?.\<close> and the index \<open>parts[parts.length - 1]\<close> give \<open>undefined\<close> where
  there is nothing, and \<open>undefined\<close> is in no set. On a path with no segment at all, the
  empty string or slashes only, both answer false. Lower-casing is the host's; all that
  is asked of it is that it maps the empty string to itself.
\<close>

theorem classifier_no_segments:
  assumes "toLowerCase [] = []" and "set p \<subseteq> {SLASH}"
  shows "\<not> shouldIgnore p \<and> \<not> isTextFile toLowerCase p"
proof -
  have sp: "split_on SLASH p = replicate (Suc (length p)) []"
    using assms(2) by (rule slashes_split)
  have "\<not> shouldIgnore p"
    unfolding shouldIgnore_iff sp
    using empty_not_ignored_dir empty_not_ignored_file
    by (auto simp del: replicate_Suc)
  moreover have "\<not> isTextFile toLowerCase p"
    unfolding isTextFile_def sp
    using assms(1) by (simp add: pop_def del: replicate_Suc)
  ultimately show ?thesis by simp
qed

theorem classifier_no_segments_witness:
  "asciiToLowerCase [] = [] \<and> set (js ''//'') \<subseteq> {SLASH}
   \<and> \<not> shouldIgnore (js ''//'') \<and> \<not> isTextFile asciiToLowerCase (js ''//'')
   \<and> \<not> shouldIgnore [] \<and> \<not> isTextFile asciiToLowerCase []"
proof -
  have low: "asciiToLowerCase [] = []"
    by (simp add: asciiToLowerCase_def)
  have sl: "set (js ''//'') \<subseteq> {SLASH}"
    by (simp add: js_def)
  show ?thesis
    using low sl classifier_no_segments [of asciiToLowerCase "js ''//''", OF low sl]
      classifier_no_segments [of asciiToLowerCase "[]", OF low]
    by simp
qed

text \<open>
  Claim C10. The later revision has the ignored directories and files of the earlier one
  and \<open>bin\<close>, \<open>obj\<close> and \<open>thumbs.db\<close> besides, and tests the segments in the same way:
  whatever the earlier revision ignores, the later one ignores.
\<close>

theorem shouldIgnore_earlier_implies_later:
  "IGNORE_DIRS = IGNORE_DIRS_earlier \<union> {js ''bin'', js ''obj''}
   \<and> IGNORE_FILES = IGNORE_FILES_earlier \<union> {js ''thumbs.db''}
   \<and> (shouldIgnore_earlier p \<longrightarrow> shouldIgnore p)"
proof -
  have d: "IGNORE_DIRS_earlier \<subseteq> IGNORE_DIRS"
    using sets_grow by blast
  have f: "IGNORE_FILES_earlier \<subseteq> IGNORE_FILES"
    using sets_grow by blast
  have "shouldIgnore_earlier p \<longrightarrow> shouldIgnore p"
    using d f
    by (auto simp: shouldIgnore_def shouldIgnore_earlier_def Let_def list_ex_iff has_def
        split: option.splits)
  with sets_grow show ?thesis by simp
qed

theorem shouldIgnore_earlier_implies_later_witness:
  "shouldIgnore_earlier (js ''app/dist/main.js'') \<and> shouldIgnore (js ''app/dist/main.js'')"
proof -
  have "shouldIgnore_earlier (js ''app/dist/main.js'')"
    by code_simp
  then show ?thesis
    using shouldIgnore_earlier_implies_later [of "js ''app/dist/main.js''"] by blast
qed

section \<open>Properties of the document packer\<close>

lemma fold_fenceStep_mono: "a \<le> fold fenceStep ms a"
proof (induction ms arbitrary: a)
  case Nil show ?case by simp
next
  case (Cons m ms)
  have "a \<le> fenceStep m a" by (simp add: fenceStep_def)
  also have "\<dots> \<le> fold fenceStep ms (fenceStep m a)" by (rule Cons.IH)
  finally show ?case by simp
qed

lemma fold_fenceStep_above: "r \<in> set ms \<Longrightarrow> length r < fold fenceStep ms a"
proof (induction ms arbitrary: a)
  case Nil then show ?case by simp
next
  case (Cons m ms)
  show ?case
  proof (cases "r = m")
    case True
    have "length m < fenceStep m a" by (simp add: fenceStep_def)
    also have "\<dots> \<le> fold fenceStep ms (fenceStep m a)" by (rule fold_fenceStep_mono)
    finally show ?thesis using True by simp
  next
    case False
    then have "r \<in> set ms" using Cons.prems by simp
    then show ?thesis using Cons.IH by simp
  qed
qed

lemma fold_fenceStep_tight: "fold fenceStep ms a = a \<or> (\<exists>r \<in> set ms. fold fenceStep ms a = length r + 1)"
proof (induction ms arbitrary: a)
  case Nil show ?case by simp
next
  case (Cons m ms)
  from Cons.IH[of "fenceStep m a"] show ?case
    by (auto simp: fenceStep_def split: if_splits)
qed

lemma sublist_replicate_split:
  assumes "sublist (replicate n b) (xs @ c # ys)" and "c \<noteq> b"
  shows "sublist (replicate n b) xs \<or> sublist (replicate n b) ys"
proof -
  from assms(1) obtain ps ss where eq: "xs @ c # ys = ps @ replicate n b @ ss"
    by (auto simp: sublist_def)
  show ?thesis
  proof (cases "length ps + n \<le> length xs")
    case True
    have "take (length xs) (xs @ c # ys) = take (length xs) (ps @ replicate n b @ ss)"
      using eq by simp
    then have "xs = ps @ replicate n b @ take (length xs - length ps - n) ss"
      using True by (simp add: take_append) 
    then show ?thesis by (metis sublist_def)
  next
    case False
    have "length xs < length ps"
    proof (rule ccontr)
      assume "\<not> length xs < length ps"
      then have le: "length ps \<le> length xs" by simp
      have "(xs @ c # ys) ! length xs = c" by simp
      moreover have "length xs - length ps < n" using le False by arith
      then have "(ps @ replicate n b @ ss) ! length xs = b"
        using le by (simp add: nth_append)
      ultimately show False using eq assms(2) by simp
    qed
    then have "drop (Suc (length xs)) (xs @ c # ys) = drop (Suc (length xs)) (ps @ replicate n b @ ss)"
      using eq by simp
    then have "ys = drop (Suc (length xs)) ps @ replicate n b @ ss"
      using \<open>length xs < length ps\<close> by (simp add: drop_append)
    then show ?thesis by (metis sublist_def)
  qed
qed

lemma sublist_replicate_le: "sublist (replicate n b) (replicate k b) \<Longrightarrow> n \<le> k"
  using sublist_length_le by fastforce

lemma scan_tick_step:
  "c = BACKTICK \<Longrightarrow>
   scanBackticks (replicate k BACKTICK) (c # cs) = scanBackticks (replicate (Suc k) BACKTICK) cs"
  by (simp add: replicate_append_same)

lemma scan_tick_append:
  "c = BACKTICK \<Longrightarrow> replicate k BACKTICK @ c # cs = replicate (Suc k) BACKTICK @ cs"
  by (simp add: replicate_append_same)

lemma scanBackticks_covers:
  assumes "sublist (replicate n BACKTICK) (replicate k BACKTICK @ cs)" and "0 < n"
  shows "\<exists>r \<in> set (scanBackticks (replicate k BACKTICK) cs). n \<le> length r"
  using assms
proof (induction cs arbitrary: k)
  case Nil
  then have "n \<le> k" using sublist_replicate_le by fastforce
  then show ?case using Nil.prems(2) by auto
next
  case (Cons c cs)
  show ?case
  proof (cases "c = BACKTICK")
    case True
    from Cons.prems(1) have "sublist (replicate n BACKTICK) (replicate (Suc k) BACKTICK @ cs)"
      by (simp only: scan_tick_append[OF True])
    from Cons.IH[OF this Cons.prems(2)] show ?thesis
      by (simp only: scan_tick_step[OF True])
  next
    case False
    from sublist_replicate_split[OF Cons.prems(1)] False
    consider "sublist (replicate n BACKTICK) (replicate k BACKTICK)" | "sublist (replicate n BACKTICK) cs"
      by auto
    then show ?thesis
    proof cases
      case 1
      then have "n \<le> k" by (rule sublist_replicate_le)
      then show ?thesis using False Cons.prems(2) by auto
    next
      case 2
      then have "\<exists>r \<in> set (scanBackticks (replicate 0 BACKTICK) cs). n \<le> length r"
        using Cons.IH[of 0] Cons.prems(2) by simp
      then show ?thesis using False by auto
    qed
  qed
qed

lemma scanBackticks_sound:
  assumes "r \<in> set (scanBackticks (replicate k BACKTICK) cs)"
  shows "r = replicate (length r) BACKTICK \<and> 0 < length r \<and> sublist r (replicate k BACKTICK @ cs)"
  using assms
proof (induction cs arbitrary: k)
  case Nil
  then show ?case by (auto split: if_splits)
next
  case (Cons c cs)
  show ?case
  proof (cases "c = BACKTICK")
    case True
    from Cons.prems have "r \<in> set (scanBackticks (replicate (Suc k) BACKTICK) cs)"
      by (simp only: scan_tick_step[OF True])
    from Cons.IH[OF this] show ?thesis
      by (simp only: scan_tick_append[OF True])
  next
    case False
    then consider "r = replicate k BACKTICK" "0 < k" | "r \<in> set (scanBackticks (replicate 0 BACKTICK) cs)"
      using Cons.prems by (auto split: if_splits)
    then show ?thesis
    proof cases
      case 1
      then show ?thesis by (auto simp: sublist_append)
    next
      case 2
      from Cons.IH[OF this] have "r = replicate (length r) BACKTICK" "0 < length r" "sublist r cs" by auto
      then show ?thesis by (metis sublist_append sublist_Cons_right)
    qed
  qed
qed

lemma fenceLengthFor_fold: "fenceLengthFor s = fold fenceStep (scanBackticks [] s) 3"
  by (simp add: fenceLengthFor_def matchBackticks_def Let_def)

lemma createMarkdownContent_concat_aux: "fold (\<lambda>f md. md @ g f) fs acc = acc @ concat (map g fs)"
  by (induction fs arbitrary: acc) auto

text \<open>
  Claim C1. The document is the header followed by one section per file, in order. The
  fence of a file's section is a run of backticks whose length is computed from that
  file's content alone: it starts at 3 and every maximal run of backticks at least as
  long as the current length sets it to the length of the run plus one. The length is at
  least 3, it exceeds every maximal run, no run of that many backticks or more occurs
  anywhere in the content, and it is the least such length above 2.
\<close>

theorem createMarkdownContent_fences:
  "createMarkdownContent repoName t fs = documentHeader repoName t @ concat (map fileSection fs)
   \<and> (\<forall>f \<in> set fs.
        fileSection f =
          js ''### '' @ path f @ [NEWLINE]
          @ replicate (fenceLengthFor (content f)) BACKTICK @ extension f @ [NEWLINE]
          @ content f
          @ [NEWLINE] @ replicate (fenceLengthFor (content f)) BACKTICK @ [NEWLINE, NEWLINE]
        \<and> fenceLengthFor (content f) = fold fenceStep (scanBackticks [] (content f)) 3
        \<and> 3 \<le> fenceLengthFor (content f)
        \<and> (\<forall>r \<in> set (scanBackticks [] (content f)). length r < fenceLengthFor (content f))
        \<and> (\<forall>n \<ge> fenceLengthFor (content f). \<not> sublist (replicate n BACKTICK) (content f))
        \<and> (fenceLengthFor (content f) = 3
            \<or> sublist (replicate (fenceLengthFor (content f) - 1) BACKTICK) (content f)))"
proof -
  have doc: "createMarkdownContent repoName t fs
             = documentHeader repoName t @ concat (map fileSection fs)"
    by (simp add: createMarkdownContent_def createMarkdownContent_concat_aux)
  have per_file:
    "fileSection f =
       js ''### '' @ path f @ [NEWLINE]
       @ replicate (fenceLengthFor (content f)) BACKTICK @ extension f @ [NEWLINE]
       @ content f
       @ [NEWLINE] @ replicate (fenceLengthFor (content f)) BACKTICK @ [NEWLINE, NEWLINE]
     \<and> fenceLengthFor (content f) = fold fenceStep (scanBackticks [] (content f)) 3
     \<and> 3 \<le> fenceLengthFor (content f)
     \<and> (\<forall>r \<in> set (scanBackticks [] (content f)). length r < fenceLengthFor (content f))
     \<and> (\<forall>n \<ge> fenceLengthFor (content f). \<not> sublist (replicate n BACKTICK) (content f))
     \<and> (fenceLengthFor (content f) = 3
         \<or> sublist (replicate (fenceLengthFor (content f) - 1) BACKTICK) (content f))" for f
  proof -
    let ?c = "content f"
    let ?n = "fenceLengthFor ?c"
    have sect: "fileSection f =
       js ''### '' @ path f @ [NEWLINE] @ replicate ?n BACKTICK @ extension f @ [NEWLINE]
       @ ?c @ [NEWLINE] @ replicate ?n BACKTICK @ [NEWLINE, NEWLINE]"
      by (simp add: fileSection_def fenceFor_def Let_def)
    have fold: "?n = fold fenceStep (scanBackticks [] ?c) 3"
      by (rule fenceLengthFor_fold)
    have base: "3 \<le> ?n"
      unfolding fold by (rule fold_fenceStep_mono)
    have above: "\<forall>r \<in> set (scanBackticks [] ?c). length r < ?n"
      unfolding fold by (simp add: fold_fenceStep_above)
    have safe: "\<forall>n \<ge> ?n. \<not> sublist (replicate n BACKTICK) ?c"
    proof (intro allI impI notI)
      fix n
      assume n: "?n \<le> n" and sub: "sublist (replicate n BACKTICK) ?c"
      from n base have "0 < n" by simp
      with sub scanBackticks_covers [of n 0 ?c]
      obtain r where "r \<in> set (scanBackticks [] ?c)" and "n \<le> length r"
        by auto
      with above n show False by fastforce
    qed
    have tight: "?n = 3 \<or> sublist (replicate (?n - 1) BACKTICK) ?c"
    proof -
      from fold_fenceStep_tight [of "scanBackticks [] ?c" 3]
      consider "?n = 3" | r where "r \<in> set (scanBackticks [] ?c)" and "?n = length r + 1"
        unfolding fold by auto
      then show ?thesis
      proof cases
        case 1
        then show ?thesis by simp
      next
        case 2
        from scanBackticks_sound [of r 0 ?c] 2(1)
        have "r = replicate (length r) BACKTICK" and "sublist r ?c"
          by auto
        with 2(2) show ?thesis by simp
      qed
    qed
    from sect fold base above safe tight show ?thesis by blast
  qed
  from doc per_file show ?thesis by blast
qed

text \<open>
  The witness is the scenario of the specification: a file whose content has a line of
  four backticks gets a fence of five, the file beside it keeps the fence of three.
\<close>

theorem createMarkdownContent_fences_witness:
  "createMarkdownContent (js ''repo'') (js ''t'')
     [\<lparr>path = js ''a.md'', content = js ''x'' @ [NEWLINE] @ js ''````'' @ [NEWLINE],
        extension = js ''md''\<rparr>,
      \<lparr>path = js ''b.ts'', content = js ''let s = `t`'', extension = js ''ts''\<rparr>]
   = documentHeader (js ''repo'') (js ''t'')
     @ concat (map fileSection
         [\<lparr>path = js ''a.md'', content = js ''x'' @ [NEWLINE] @ js ''````'' @ [NEWLINE],
            extension = js ''md''\<rparr>,
          \<lparr>path = js ''b.ts'', content = js ''let s = `t`'', extension = js ''ts''\<rparr>])
   \<and> fenceLengthFor (js ''x'' @ [NEWLINE] @ js ''````'' @ [NEWLINE]) = 5
   \<and> fenceLengthFor (js ''let s = `t`'') = 3
   \<and> \<not> sublist (replicate 5 BACKTICK) (js ''x'' @ [NEWLINE] @ js ''````'' @ [NEWLINE])"
proof -
  let ?a = "\<lparr>path = js ''a.md'', content = js ''x'' @ [NEWLINE] @ js ''````'' @ [NEWLINE],
             extension = js ''md''\<rparr>"
  let ?b = "\<lparr>path = js ''b.ts'', content = js ''let s = `t`'', extension = js ''ts''\<rparr>"
  have la: "fenceLengthFor (js ''x'' @ [NEWLINE] @ js ''````'' @ [NEWLINE]) = 5"
    by code_simp
  have lb: "fenceLengthFor (js ''let s = `t`'') = 3"
    by code_simp
  from createMarkdownContent_fences [of "js ''repo''" "js ''t''" "[?a, ?b]"]
  have doc: "createMarkdownContent (js ''repo'') (js ''t'') [?a, ?b]
             = documentHeader (js ''repo'') (js ''t'') @ concat (map fileSection [?a, ?b])"
    and safe: "\<forall>n \<ge> fenceLengthFor (content ?a).
                 \<not> sublist (replicate n BACKTICK) (content ?a)"
    by simp_all
  from safe la have "\<not> sublist (replicate 5 BACKTICK) (js ''x'' @ [NEWLINE] @ js ''````'' @ [NEWLINE])"
    by simp
  with doc la lb show ?thesis by blast
qed

section \<open>Properties of the archive walker\<close>


lemma walkProgress_div: "walkProgress c n = 10 + int ((c * 80) div n)"
proof -
  have "(of_nat c / of_nat n :: rat) * 80 = of_int (int (c * 80)) / of_int (int n)"
    by simp
  then have "\<lfloor>(of_nat c / of_nat n :: rat) * 80\<rfloor> = int (c * 80) div int n"
    by (simp only: floor_divide_of_int_eq)
  then show ?thesis
    by (simp add: walkProgress_def zdiv_int)
qed

lemma walkProgress_mono: "c \<le> c' \<Longrightarrow> walkProgress c n \<le> walkProgress c' n"
  by (simp add: walkProgress_div div_le_mono)

lemma walkProgress_range: "c \<le> n \<Longrightarrow> 10 \<le> walkProgress c n \<and> walkProgress c n \<le> 90"
proof -
  assume "c \<le> n"
  then have "c * 80 div n \<le> n * 80 div n"
    by (intro div_le_mono) simp
  also have "\<dots> \<le> 80"
    by (cases "n = 0") simp_all
  finally show ?thesis
    by (simp add: walkProgress_div)
qed

lemma estimateTokens_div: "estimateTokens n = int ((n + 3) div 4)"
proof -
  have "\<lceil>(of_nat n :: rat) / 4\<rceil> = - \<lfloor>of_int (- int n) / (of_int 4 :: rat)\<rfloor>"
    by (simp add: ceiling_def)
  also have "\<dots> = - ((- int n) div 4)"
    by (simp only: floor_divide_of_int_eq)
  also have "\<dots> = int ((n + 3) div 4)"
    by linarith
  finally show ?thesis by (simp add: estimateTokens_def)
qed

lemma estimateTokens_bounds:
  "0 \<le> estimateTokens n * 4 - int n \<and> estimateTokens n * 4 - int n \<le> 3"
  unfolding estimateTokens_div by linarith


lemma walk_collects:
  "walk lc n es s = (s', None) \<Longrightarrow>
   collected s' = collected s @
     map (\<lambda>e. \<lparr>path = name e, content = the (decoded e),
                 extension = (case pop (split_on DOT (name e)) of None \<Rightarrow> [] | Some ext \<Rightarrow> ext)\<rparr>)
       (filter (\<lambda>e. \<not> dir e \<and> \<not> shouldIgnore (name e) \<and> isTextFile lc (name e)) es)
   \<and> paths s' = paths s @
       map name (filter (\<lambda>e. \<not> dir e \<and> \<not> shouldIgnore (name e) \<and> isTextFile lc (name e)) es)
   \<and> sizeSoFar s' = sizeSoFar s + sum_list (map (\<lambda>f. byteLength (content f))
       (drop (length (collected s)) (collected s')))"
proof (induction es arbitrary: s)
  case Nil
  then show ?case by simp
next
  case (Cons e es)
  show ?case
  proof (cases "\<not> dir e \<and> \<not> shouldIgnore (name e) \<and> isTextFile lc (name e)")
    case False
    then show ?thesis
      using Cons.prems Cons.IH by (auto simp: Let_def split: if_splits)
  next
    case True
    then obtain body where dec: "decoded e = Some body"
      using Cons.prems by (cases "decoded e") (auto simp: Let_def)
    show ?thesis
      using True dec Cons.prems 
      by (auto simp: Let_def dest!: Cons.IH)
  qed
qed

lemma walk_step:
  assumes "walk lc n (e # es) s = (s', err)"
  defines "evs \<equiv> reported s @
      (if n > 0 \<and> (Suc (processedCount s) mod 5 = 0 \<or> Suc (processedCount s) = n)
       then [(walkProgress (Suc (processedCount s)) n, Processing (pop (split_on SLASH (name e))))]
       else [])"
  shows "(\<exists>t. processedCount t = Suc (processedCount s) \<and> reported t = evs
              \<and> walk lc n es t = (s', err))
         \<or> (err = Some DecodeFailed \<and> reported s' = evs)"
  using assms(1) unfolding evs_def
  by (auto simp: Let_def split: if_splits option.splits)

lemma walk_reports:
  "walk lc n es s = (s', err) \<Longrightarrow>
   \<exists>k \<le> length es. (err = None \<longrightarrow> k = length es) \<and>
     map fst (reported s') = map fst (reported s) @
       map (\<lambda>i. walkProgress i n)
         (filter (\<lambda>i. n > 0 \<and> (i mod 5 = 0 \<or> i = n))
            [Suc (processedCount s) ..< Suc (processedCount s) + k])"
proof (induction es arbitrary: s)
  case Nil
  then show ?case by simp
next
  case (Cons e es)
  let ?c = "Suc (processedCount s)"
  let ?cond = "\<lambda>i. n > 0 \<and> (i mod 5 = 0 \<or> i = n)"
  let ?evs = "reported s @
      (if n > 0 \<and> (?c mod 5 = 0 \<or> ?c = n)
       then [(walkProgress ?c n, Processing (pop (split_on SLASH (name e))))]
       else [])"
  have first: "map fst ?evs = map fst (reported s) @ map (\<lambda>i. walkProgress i n) (filter ?cond [?c ..< ?c + 1])"
    by simp
  from walk_step [OF Cons.prems]
  consider t where "processedCount t = ?c" "reported t = ?evs" "walk lc n es t = (s', err)"
    | "err = Some DecodeFailed" "reported s' = ?evs"
    by blast
  then show ?case
  proof cases
    case 1
    from Cons.IH [OF 1(3)] obtain k where k: "k \<le> length es" "err = None \<longrightarrow> k = length es"
      "map fst (reported s') = map fst (reported t) @
         map (\<lambda>i. walkProgress i n) (filter ?cond [Suc (processedCount t) ..< Suc (processedCount t) + k])"
      by blast
    have split: "[?c ..< ?c + Suc k] = [?c ..< ?c + 1] @ [Suc ?c ..< Suc ?c + k]"
      by (simp add: upt_conv_Cons)
    have "map fst (reported s') = map fst (reported s) @
         map (\<lambda>i. walkProgress i n) (filter ?cond [?c ..< ?c + Suc k])"
      unfolding k(3) 1(1) 1(2) first split by simp
    moreover have "Suc k \<le> length (e # es)" using k(1) by simp
    moreover have "err = None \<longrightarrow> Suc k = length (e # es)" using k(2) by simp
    ultimately show ?thesis by blast
  next
    case 2
    have "map fst (reported s') = map fst (reported s) @
         map (\<lambda>i. walkProgress i n) (filter ?cond [?c ..< ?c + 1])"
      unfolding 2(2) first ..
    moreover have "(1::nat) \<le> length (e # es)" by simp
    moreover have "err = None \<longrightarrow> 1 = length (e # es)" using 2(1) by simp
    ultimately show ?thesis by blast
  qed
qed

lemma sorted_walkProgress:
  "sorted (map (\<lambda>i. walkProgress i n) (filter P [a ..< b]))"
proof -
  have "sorted (filter P [a ..< b])"
    by (rule sorted_wrt_filter) simp
  then show ?thesis
    by (simp add: sorted_map sorted_wrt_mono_rel [where P = "(\<le>)"] walkProgress_mono)
qed


lemma walk_error: "walk lc n es s = (s', Some e) \<Longrightarrow> e = DecodeFailed"
proof (induction es arbitrary: s)
  case Nil
  then show ?case by simp
next
  case (Cons x xs)
  from walk_step [OF Cons.prems] Cons.IH show ?case by blast
qed

lemma processZipFile_failed_walk:
  "es \<noteq> [] \<Longrightarrow> walk lc (length es) es walkStart = (s', Some e) \<Longrightarrow>
   processZipFile lc host rlm (Some es) = \<lparr>progress = reported s', outcome = Inl e, realmAfter = rlm\<rparr>"
  by (simp add: processZipFile_def)

lemma processZipFile_failed_tree:
  "es \<noteq> [] \<Longrightarrow> walk lc (length es) es walkStart = (s', None) \<Longrightarrow>
   generateTreeString host rlm (paths s') = (rlm', Inl e) \<Longrightarrow>
   processZipFile lc host rlm (Some es) = \<lparr>progress = reported s', outcome = Inl e, realmAfter = rlm'\<rparr>"
  by (simp add: processZipFile_def)

lemma processZipFile_returned:
  "es \<noteq> [] \<Longrightarrow> walk lc (length es) es walkStart = (s', None) \<Longrightarrow>
   generateTreeString host rlm (paths s') = (rlm', Inr rendered) \<Longrightarrow>
   processZipFile lc host rlm (Some es) =
     \<lparr>progress = reported s',
      outcome = Inr \<lparr>files = collected s', tree = rendered,
                     stats = \<lparr>fileCount = length (collected s'), totalSize = sizeSoFar s',
                              tokenEstimate = estimateTokens (sizeSoFar s')\<rparr>\<rparr>,
      realmAfter = rlm'\<rparr>"
  by (simp add: processZipFile_def)

lemma run_of_walk:
  assumes "es \<noteq> []"
  shows "\<exists>s' err. walk lc (length es) es walkStart = (s', err)
    \<and> progress (processZipFile lc host rlm (Some es)) = reported s'
    \<and> (err \<noteq> None \<longrightarrow> outcome (processZipFile lc host rlm (Some es)) = Inl DecodeFailed)
    \<and> (\<forall>r. outcome (processZipFile lc host rlm (Some es)) = Inr r \<longrightarrow>
           err = None \<and> files r = collected s'
           \<and> stats r = \<lparr>fileCount = length (collected s'), totalSize = sizeSoFar s',
                         tokenEstimate = estimateTokens (sizeSoFar s')\<rparr>)"
proof -
  obtain s' err where w: "walk lc (length es) es walkStart = (s', err)"
    by (cases "walk lc (length es) es walkStart")
  have "progress (processZipFile lc host rlm (Some es)) = reported s'
    \<and> (err \<noteq> None \<longrightarrow> outcome (processZipFile lc host rlm (Some es)) = Inl DecodeFailed)
    \<and> (\<forall>r. outcome (processZipFile lc host rlm (Some es)) = Inr r \<longrightarrow>
           err = None \<and> files r = collected s'
           \<and> stats r = \<lparr>fileCount = length (collected s'), totalSize = sizeSoFar s',
                         tokenEstimate = estimateTokens (sizeSoFar s')\<rparr>)"
  proof (cases err)
    case (Some e)
    with w walk_error have e: "e = DecodeFailed" by blast
    from processZipFile_failed_walk [OF assms, of lc s' e host rlm] w Some
    have "processZipFile lc host rlm (Some es)
          = \<lparr>progress = reported s', outcome = Inl e, realmAfter = rlm\<rparr>"
      by simp
    with e Some show ?thesis by simp
  next
    case None
    obtain rlm' res where g: "generateTreeString host rlm (paths s') = (rlm', res)"
      by (cases "generateTreeString host rlm (paths s')")
    show ?thesis
    proof (cases res)
      case (Inl e)
      from processZipFile_failed_tree [OF assms, of lc s' host rlm rlm' e] w None g Inl
      have "processZipFile lc host rlm (Some es)
          = \<lparr>progress = reported s', outcome = Inl e, realmAfter = rlm'\<rparr>"
        by simp
      with None show ?thesis by simp
    next
      case (Inr rendered)
      from processZipFile_returned [OF assms, of lc s' host rlm rlm' rendered] w None g Inr
      have "processZipFile lc host rlm (Some es) =
        \<lparr>progress = reported s',
         outcome = Inr \<lparr>files = collected s', tree = rendered,
                     stats = \<lparr>fileCount = length (collected s'), totalSize = sizeSoFar s',
                              tokenEstimate = estimateTokens (sizeSoFar s')\<rparr>\<rparr>,
         realmAfter = rlm'\<rparr>"
        by simp
      with None show ?thesis by auto
    qed
  qed
  with w show ?thesis by blast
qed

text \<open>
  Claim C5. Whenever \<open>processZipFile\<close> returns, on whatever host and from whatever realm,
  the files are the entries that are no directory, are not ignored and are text files,
  in the order of the archive; \<open>totalSize\<close> is the sum of the UTF-8 byte lengths of their
  contents, \<open>tokenEstimate\<close> is the ceiling of \<open>totalSize / 4\<close>, and four times the estimate
  exceeds the size by 0 to 3.
\<close>

theorem stats_of_run:
  assumes "outcome (processZipFile lc host rlm archive) = Inr r"
  shows "(\<exists>es. archive = Some es \<and>
           files r = map (\<lambda>e. \<lparr>path = name e, content = the (decoded e),
                 extension = (case pop (split_on DOT (name e)) of None \<Rightarrow> [] | Some ext \<Rightarrow> ext)\<rparr>)
             (filter (\<lambda>e. \<not> dir e \<and> \<not> shouldIgnore (name e) \<and> isTextFile lc (name e)) es))
    \<and> fileCount (stats r) = length (files r)
    \<and> totalSize (stats r) = sum_list (map (\<lambda>f. byteLength (content f)) (files r))
    \<and> tokenEstimate (stats r) = \<lceil>(of_nat (totalSize (stats r)) :: rat) / 4\<rceil>
    \<and> 0 \<le> tokenEstimate (stats r) * 4 - int (totalSize (stats r))
    \<and> tokenEstimate (stats r) * 4 - int (totalSize (stats r)) \<le> 3"
proof -
  from assms obtain es where es: "archive = Some es"
    by (cases archive) (auto simp: processZipFile_def)
  let ?keep = "\<lambda>e. \<not> dir e \<and> \<not> shouldIgnore (name e) \<and> isTextFile lc (name e)"
  let ?file = "\<lambda>e. \<lparr>path = name e, content = the (decoded e),
                 extension = (case pop (split_on DOT (name e)) of None \<Rightarrow> [] | Some ext \<Rightarrow> ext)\<rparr>"
  have core: "files r = map ?file (filter ?keep es)
     \<and> fileCount (stats r) = length (files r)
     \<and> totalSize (stats r) = sum_list (map (\<lambda>f. byteLength (content f)) (files r))
     \<and> tokenEstimate (stats r) = estimateTokens (totalSize (stats r))"
  proof (cases "es = []")
    case True
    then have "r = \<lparr>files = [], tree = js ''(Empty Archive)'',
                    stats = \<lparr>fileCount = 0, totalSize = 0, tokenEstimate = 0\<rparr>\<rparr>"
      using assms es by (simp add: processZipFile_def)
    then show ?thesis using True by (simp add: estimateTokens_def)
  next
    case False
    obtain s' err where w0: "walk lc (length es) es walkStart = (s', err)"
      and "progress (processZipFile lc host rlm (Some es)) = reported s'"
      and "err \<noteq> None \<longrightarrow> outcome (processZipFile lc host rlm (Some es)) = Inl DecodeFailed"
      and ret: "\<forall>r. outcome (processZipFile lc host rlm (Some es)) = Inr r \<longrightarrow>
           err = None \<and> files r = collected s'
           \<and> stats r = \<lparr>fileCount = length (collected s'), totalSize = sizeSoFar s',
                         tokenEstimate = estimateTokens (sizeSoFar s')\<rparr>"
      using run_of_walk [OF False, of lc host rlm] by blast
    from ret assms es
    have w: "walk lc (length es) es walkStart = (s', None)"
      and f: "files r = collected s'"
      and st: "stats r = \<lparr>fileCount = length (collected s'), totalSize = sizeSoFar s',
                         tokenEstimate = estimateTokens (sizeSoFar s')\<rparr>"
      using w0 by simp_all
    from walk_collects [OF w] have "collected s' = map ?file (filter ?keep es)"
      and "sizeSoFar s' = sum_list (map (\<lambda>f. byteLength (content f)) (collected s'))"
      by simp_all
    with f st show ?thesis by simp
  qed
  then show ?thesis
    using es estimateTokens_bounds [of "totalSize (stats r)"]
    by (simp add: estimateTokens_def)
qed

text \<open>
  The witness has a content of two characters that take five bytes: the size counts
  bytes, not characters.
\<close>

theorem stats_of_run_witness:
  "outcome (processZipFile asciiToLowerCase idleHost freshRealm
     (Some [\<lparr>name = js ''src/a.ts'', dir = False, decoded = Some (js ''hello'')\<rparr>,
            \<lparr>name = js ''docs/'', dir = True, decoded = None\<rparr>,
            \<lparr>name = js ''docs/b.md'', dir = False, decoded = Some [233, 8364]\<rparr>,
            \<lparr>name = js ''node_modules/x.js'', dir = False, decoded = Some (js ''zzz'')\<rparr>]))
   = Inr \<lparr>files = [\<lparr>path = js ''src/a.ts'', content = js ''hello'', extension = js ''ts''\<rparr>,
                    \<lparr>path = js ''docs/b.md'', content = [233, 8364], extension = js ''md''\<rparr>],
           tree = MID_CONNECTOR @ js ''docs/'' @ [NEWLINE] @ MID_PREFIX @ LAST_CONNECTOR @ js ''b.md''
                  @ [NEWLINE] @ LAST_CONNECTOR @ js ''src/'' @ [NEWLINE]
                  @ LAST_PREFIX @ LAST_CONNECTOR @ js ''a.ts'',
           stats = \<lparr>fileCount = 2, totalSize = 10, tokenEstimate = 3\<rparr>\<rparr>
   \<and> (10::nat) = sum_list (map (\<lambda>f. byteLength (content f))
         [\<lparr>path = js ''src/a.ts'', content = js ''hello'', extension = js ''ts''\<rparr>,
          \<lparr>path = js ''docs/b.md'', content = [233, 8364], extension = js ''md''\<rparr>])
   \<and> (3::int) = \<lceil>(of_nat 10 :: rat) / 4\<rceil>
   \<and> length (js ''hello'') + length [233, 8364 :: char16] = 7"
proof -
  let ?r = "\<lparr>files = [\<lparr>path = js ''src/a.ts'', content = js ''hello'', extension = js ''ts''\<rparr>,
                    \<lparr>path = js ''docs/b.md'', content = [233, 8364], extension = js ''md''\<rparr>],
           tree = MID_CONNECTOR @ js ''docs/'' @ [NEWLINE] @ MID_PREFIX @ LAST_CONNECTOR @ js ''b.md''
                  @ [NEWLINE] @ LAST_CONNECTOR @ js ''src/'' @ [NEWLINE]
                  @ LAST_PREFIX @ LAST_CONNECTOR @ js ''a.ts'',
           stats = \<lparr>fileCount = 2, totalSize = 10, tokenEstimate = 3\<rparr>\<rparr>"
  have run: "outcome (processZipFile asciiToLowerCase idleHost freshRealm
     (Some [\<lparr>name = js ''src/a.ts'', dir = False, decoded = Some (js ''hello'')\<rparr>,
            \<lparr>name = js ''docs/'', dir = True, decoded = None\<rparr>,
            \<lparr>name = js ''docs/b.md'', dir = False, decoded = Some [233, 8364]\<rparr>,
            \<lparr>name = js ''node_modules/x.js'', dir = False, decoded = Some (js ''zzz'')\<rparr>]))
     = Inr ?r"
    by code_simp
  from stats_of_run [OF run]
  have "totalSize (stats ?r) = sum_list (map (\<lambda>f. byteLength (content f)) (files ?r))"
    and "tokenEstimate (stats ?r) = \<lceil>(of_nat (totalSize (stats ?r)) :: rat) / 4\<rceil>"
    by blast+
  then have "(10::nat) = sum_list (map (\<lambda>f. byteLength (content f))
         [\<lparr>path = js ''src/a.ts'', content = js ''hello'', extension = js ''ts''\<rparr>,
          \<lparr>path = js ''docs/b.md'', content = [233, 8364], extension = js ''md''\<rparr>])"
    and "(3::int) = \<lceil>(of_nat 10 :: rat) / 4\<rceil>"
    by simp_all
  moreover have "length (js ''hello'') + length [233, 8364 :: char16] = 7"
    by (simp add: js_def)
  ultimately show ?thesis using run by blast
qed

text \<open>
  Claim C6. An archive with no entry is no error: \<open>processZipFile\<close> reports 5 and then
  100 percent and returns no files, the tree \<open>(Empty Archive)\<close> and statistics of zero.
\<close>

theorem empty_archive_result:
  "processZipFile lc host rlm (Some []) =
     \<lparr>progress = [(5, ReadingZip), (100, EmptyArchive)],
      outcome = Inr \<lparr>files = [], tree = js ''(Empty Archive)'',
                     stats = \<lparr>fileCount = 0, totalSize = 0, tokenEstimate = 0\<rparr>\<rparr>,
      realmAfter = rlm\<rparr>"
  by (simp add: processZipFile_def)

theorem empty_archive_result_witness:
  "processZipFile asciiToLowerCase idleHost freshRealm (Some []) =
     \<lparr>progress = [(5, ReadingZip), (100, EmptyArchive)],
      outcome = Inr \<lparr>files = [], tree = js ''(Empty Archive)'',
                     stats = \<lparr>fileCount = 0, totalSize = 0, tokenEstimate = 0\<rparr>\<rparr>,
      realmAfter = freshRealm\<rparr>"
  by (rule empty_archive_result)

lemma sorted_after_start:
  "sorted ws \<Longrightarrow> \<forall>p \<in> set ws. 10 \<le> p \<and> p \<le> 90 \<Longrightarrow>
   sorted ([5, 10] @ ws) \<and> (\<forall>p \<in> set ([5, 10] @ ws). 0 \<le> p \<and> p \<le> (100::int))"
  by fastforce

text \<open>
  Claim C8. In every run, whether it returns or throws, the percentages passed to
  \<open>onProgress\<close> never decrease and lie between 0 and 100. For an archive with entries they
  are 5, 10, and then one value for every entry whose number is a multiple of 5 or the
  last, up to the entry where the run stopped (the last one unless decoding failed); the
  value for entry \<open>i\<close> of \<open>n\<close> is \<open>10 + floor (i / n * 80)\<close>, between 10 and 90.
\<close>

theorem progress_monotone:
  "sorted (map fst (progress (processZipFile lc host rlm archive)))
   \<and> (\<forall>e \<in> set (progress (processZipFile lc host rlm archive)). 0 \<le> fst e \<and> fst e \<le> 100)
   \<and> (\<forall>es. archive = Some es \<and> es \<noteq> [] \<longrightarrow>
        (\<exists>k \<le> length es.
           (outcome (processZipFile lc host rlm archive) = Inl DecodeFailed \<or> k = length es)
           \<and> map fst (progress (processZipFile lc host rlm archive)) =
               [5, 10] @ map (\<lambda>i. walkProgress i (length es))
                            (filter (\<lambda>i. i mod 5 = 0 \<or> i = length es) [1 ..< Suc k])))
   \<and> (\<forall>i n. i \<le> n \<longrightarrow> 10 \<le> walkProgress i n \<and> walkProgress i n \<le> 90)"
proof -
  let ?run = "processZipFile lc host rlm archive"
  have loop: "\<exists>k \<le> length es.
           (outcome ?run = Inl DecodeFailed \<or> k = length es)
           \<and> map fst (progress ?run) =
               [5, 10] @ map (\<lambda>i. walkProgress i (length es))
                            (filter (\<lambda>i. i mod 5 = 0 \<or> i = length es) [1 ..< Suc k])"
    if arch: "archive = Some es" and ne: "es \<noteq> []" for es
  proof -
    obtain s' err where w: "walk lc (length es) es walkStart = (s', err)"
      and p: "progress (processZipFile lc host rlm (Some es)) = reported s'"
      and e: "err \<noteq> None \<longrightarrow> outcome (processZipFile lc host rlm (Some es)) = Inl DecodeFailed"
      using run_of_walk [OF ne, of lc host rlm] by blast
    from walk_reports [OF w] obtain k where k: "k \<le> length es" "err = None \<longrightarrow> k = length es"
      and ev: "map fst (reported s') = map fst (reported walkStart) @
         map (\<lambda>i. walkProgress i (length es))
           (filter (\<lambda>i. length es > 0 \<and> (i mod 5 = 0 \<or> i = length es))
            [Suc (processedCount walkStart) ..< Suc (processedCount walkStart) + k])"
      by blast
    have "map fst (progress ?run) = [5, 10] @ map (\<lambda>i. walkProgress i (length es))
                            (filter (\<lambda>i. i mod 5 = 0 \<or> i = length es) [1 ..< Suc k])"
      using ev ne unfolding arch p by simp
    moreover have "outcome ?run = Inl DecodeFailed \<or> k = length es"
      using k(2) e unfolding arch by blast
    ultimately show ?thesis using k(1) by blast
  qed
  have range: "10 \<le> walkProgress i n \<and> walkProgress i n \<le> 90" if "i \<le> n" for i n
    using that by (rule walkProgress_range)
  have bounds: "sorted (map fst (progress ?run)) \<and> (\<forall>p \<in> set (map fst (progress ?run)). 0 \<le> p \<and> p \<le> 100)"
  proof (cases archive)
    case None
    then show ?thesis by (simp add: processZipFile_def)
  next
    case (Some es)
    show ?thesis
    proof (cases "es = []")
      case True
      then show ?thesis using Some by (simp add: processZipFile_def)
    next
      case False
      from loop [OF Some False] obtain k where k: "k \<le> length es"
        and ev: "map fst (progress ?run) = [5, 10] @ map (\<lambda>i. walkProgress i (length es))
                            (filter (\<lambda>i. i mod 5 = 0 \<or> i = length es) [1 ..< Suc k])"
        by blast
      let ?ws = "map (\<lambda>i. walkProgress i (length es))
                            (filter (\<lambda>i. i mod 5 = 0 \<or> i = length es) [1 ..< Suc k])"
      have in_range: "10 \<le> p \<and> p \<le> 90" if "p \<in> set ?ws" for p
      proof -
        from that have "p \<in> (\<lambda>i. walkProgress i (length es)) `
            set (filter (\<lambda>i. i mod 5 = 0 \<or> i = length es) [1 ..< Suc k])"
          by (simp only: set_map)
        then obtain i where i: "i \<in> set (filter (\<lambda>i. i mod 5 = 0 \<or> i = length es) [1 ..< Suc k])"
          and p: "p = walkProgress i (length es)"
          by (rule imageE)
        from i k have "i \<le> length es" by auto
        with p range [of i "length es"] show ?thesis by simp
      qed
      have "sorted ?ws"
        by (rule sorted_walkProgress)
      moreover from in_range have "\<forall>p \<in> set ?ws. 10 \<le> p \<and> p \<le> 90"
        by blast
      ultimately have "sorted ([5, 10] @ ?ws) \<and> (\<forall>p \<in> set ([5, 10] @ ?ws). 0 \<le> p \<and> p \<le> 100)"
        by (rule sorted_after_start)
      then show ?thesis unfolding ev .
    qed
  qed
  from bounds have "sorted (map fst (progress ?run))"
    and "\<forall>e \<in> set (progress ?run). 0 \<le> fst e \<and> fst e \<le> 100"
    by simp_all
  moreover from loop have "\<forall>es. archive = Some es \<and> es \<noteq> [] \<longrightarrow>
        (\<exists>k \<le> length es.
           (outcome ?run = Inl DecodeFailed \<or> k = length es)
           \<and> map fst (progress ?run) =
               [5, 10] @ map (\<lambda>i. walkProgress i (length es))
                            (filter (\<lambda>i. i mod 5 = 0 \<or> i = length es) [1 ..< Suc k]))"
    by blast
  moreover from range have "\<forall>i n. i \<le> n \<longrightarrow> 10 \<le> walkProgress i n \<and> walkProgress i n \<le> 90"
    by blast
  ultimately show ?thesis by (intro conjI)
qed

theorem progress_monotone_witness:
  "map fst (progress (processZipFile asciiToLowerCase idleHost freshRealm
     (Some [\<lparr>name = js ''a/'', dir = True, decoded = None\<rparr>,
            \<lparr>name = js ''b/'', dir = True, decoded = None\<rparr>,
            \<lparr>name = js ''c/'', dir = True, decoded = None\<rparr>,
            \<lparr>name = js ''d/'', dir = True, decoded = None\<rparr>,
            \<lparr>name = js ''e/'', dir = True, decoded = None\<rparr>,
            \<lparr>name = js ''f.ts'', dir = False, decoded = Some (js ''6'')\<rparr>])))
   = [5, 10, 76, 90]
   \<and> sorted [5, 10, 76, 90 :: int]
   \<and> list_all (\<lambda>p. 0 \<le> p \<and> p \<le> 100) [5, 10, 76, 90 :: int]"
proof -
  let ?run = "processZipFile asciiToLowerCase idleHost freshRealm
     (Some [\<lparr>name = js ''a/'', dir = True, decoded = None\<rparr>,
            \<lparr>name = js ''b/'', dir = True, decoded = None\<rparr>,
            \<lparr>name = js ''c/'', dir = True, decoded = None\<rparr>,
            \<lparr>name = js ''d/'', dir = True, decoded = None\<rparr>,
            \<lparr>name = js ''e/'', dir = True, decoded = None\<rparr>,
            \<lparr>name = js ''f.ts'', dir = False, decoded = Some (js ''6'')\<rparr>])"
  have ev: "map fst (progress ?run) = [5, 10, 76, 90]"
    by code_simp
  from progress_monotone [of asciiToLowerCase idleHost freshRealm]
  have "sorted (map fst (progress ?run))"
    and "\<forall>e \<in> set (progress ?run). 0 \<le> fst e \<and> fst e \<le> 100"
    by blast+
  then have "sorted (map fst (progress ?run))"
    and "\<forall>p \<in> set (map fst (progress ?run)). 0 \<le> p \<and> p \<le> 100"
    by simp_all
  then show ?thesis unfolding ev using ev by (simp add: list_all_iff)
qed

text \<open>
  The extension of a kept file is \<open>filename.split('.').pop() || ''\<close>, taken on the whole
  path. When the last segment of the path has a dot, this is what follows the last dot
  of that segment.
\<close>

lemma extension_of_dotted_name:
  assumes "DOT \<in> set (last (split_on SLASH p))"
  shows "pop (split_on DOT p) = Some (last (split_on DOT (last (split_on SLASH p))))"
proof -
  from split_on_last_suffix [of p SLASH]
  obtain pre where p: "p = pre @ last (split_on SLASH p)"
    by blast
  from split_list_last [OF assms]
  obtain u v where b: "last (split_on SLASH p) = u @ DOT # v"
    by blast
  have "p = (pre @ u) @ DOT # v"
    using p b by simp
  then have "last (split_on DOT p) = last (split_on DOT v)"
    by (metis last_split_on_append)
  moreover have "last (split_on DOT (last (split_on SLASH p))) = last (split_on DOT v)"
    unfolding b by (rule last_split_on_append)
  ultimately show ?thesis
    by (simp add: pop_def split_on_not_Nil)
qed

text \<open>
  Claim C2 says that the extension of every file that \<open>processZipFile\<close> produces is what
  follows the last dot of the last segment of its path, and the empty string when that
  segment has no dot. A file is kept without a dot in its last segment when that
  segment is one of the five known names, and there the code does otherwise: the
  extension is the whole path when the path has no dot at all, and what follows the last
  dot of a directory name when it has one. The entries \<open>Makefile\<close> and \<open>my.dir/LICENSE\<close>
  get the extensions \<open>Makefile\<close> and \<open>dir/LICENSE\<close>.
\<close>

theorem extension_without_dot:
  "map_sum id (\<lambda>r. map extension (files r))
     (outcome (processZipFile asciiToLowerCase host freshRealm
        (Some [\<lparr>name = js ''Makefile'', dir = False, decoded = Some (js ''all:'')\<rparr>,
               \<lparr>name = js ''my.dir/LICENSE'', dir = False, decoded = Some (js ''MIT'')\<rparr>])))
   = Inr [js ''Makefile'', js ''dir/LICENSE'']
   \<and> DOT \<notin> set (last (split_on SLASH (js ''Makefile'')))
   \<and> DOT \<notin> set (last (split_on SLASH (js ''my.dir/LICENSE'')))"
  by code_simp

section \<open>Properties of the tree renderer\<close>

lemma descend_Nil: "descend n [] = Some n"
  by (simp add: descend_def)

lemma fold_lookup_None:
  "fold (\<lambda>k found. case found of None \<Rightarrow> None | Some m \<Rightarrow> map_of (props m) k) ks None = None"
  by (induction ks) auto

lemma descend_Cons:
  "descend (Node ps) (k # ks) = (case map_of ps k of None \<Rightarrow> None | Some c \<Rightarrow> descend c ks)"
  by (cases "map_of ps k") (simp_all add: descend_def fold_lookup_None)

lemma descend_append:
  "descend n (ks @ [k]) = (case descend n ks of None \<Rightarrow> None | Some m \<Rightarrow> map_of (props m) k)"
  by (simp add: descend_def)

lemma single_in_keyPaths: "[k] \<in> keyPaths (Node ps) \<longleftrightarrow> k \<in> fst ` set ps"
proof
  assume "[k] \<in> keyPaths (Node ps)"
  then obtain k' c where "(k', c) \<in> set ps" and "[k] \<in> insert [k'] ((#) k' ` keyPaths c)"
    by auto
  then have "k = k'" by auto
  with \<open>(k', c) \<in> set ps\<close> show "k \<in> fst ` set ps" by force
next
  assume "k \<in> fst ` set ps"
  then obtain c where "(k, c) \<in> set ps" by auto
  then show "[k] \<in> keyPaths (Node ps)" by auto
qed

lemma cons_in_keyPaths:
  "k # w \<in> keyPaths (Node ps) \<longleftrightarrow> (\<exists>c. (k, c) \<in> set ps \<and> (w = [] \<or> w \<in> keyPaths c))"
proof
  assume "k # w \<in> keyPaths (Node ps)"
  then obtain k' c where in_ps: "(k', c) \<in> set ps" and "k # w \<in> insert [k'] ((#) k' ` keyPaths c)"
    by auto
  then have "k = k' \<and> (w = [] \<or> w \<in> keyPaths c)" by auto
  with in_ps show "\<exists>c. (k, c) \<in> set ps \<and> (w = [] \<or> w \<in> keyPaths c)" by blast
next
  assume "\<exists>c. (k, c) \<in> set ps \<and> (w = [] \<or> w \<in> keyPaths c)"
  then obtain c where "(k, c) \<in> set ps" and "w = [] \<or> w \<in> keyPaths c" by blast
  then have "k # w \<in> insert [k] ((#) k ` keyPaths c)" by auto
  with \<open>(k, c) \<in> set ps\<close> show "k # w \<in> keyPaths (Node ps)" by force
qed

lemma child_keyPaths:
  assumes "distinct (map fst ps)" and "map_of ps k = Some c"
  shows "keyPaths c = {w. w \<noteq> [] \<and> k # w \<in> keyPaths (Node ps)}"
proof -
  have uniq: "\<And>c'. (k, c') \<in> set ps \<Longrightarrow> c' = c"
    using assms by (metis map_of_is_SomeI option.inject)
  have here: "(k, c) \<in> set ps"
    using assms(2) by (rule map_of_SomeD)
  have nonempty: "[] \<notin> keyPaths c"
    by (cases c) auto
  show ?thesis
  proof (intro set_eqI iffI)
    fix w assume "w \<in> keyPaths c"
    with here nonempty show "w \<in> {w. w \<noteq> [] \<and> k # w \<in> keyPaths (Node ps)}"
      unfolding cons_in_keyPaths by blast
  next
    fix w assume "w \<in> {w. w \<noteq> [] \<and> k # w \<in> keyPaths (Node ps)}"
    then obtain c' where "(k, c') \<in> set ps" and "w \<in> keyPaths c'"
      unfolding cons_in_keyPaths by blast
    with uniq show "w \<in> keyPaths c" by blast
  qed
qed

lemma keyPaths_empty: "keyPaths n = {} \<longleftrightarrow> props n = []"
proof (cases n)
  case (Node ps)
  show ?thesis
  proof (cases ps)
    case Nil
    with Node show ?thesis by simp
  next
    case (Cons kc rest)
    obtain k c where "kc = (k, c)" by (cases kc)
    with Cons Node have "[k] \<in> keyPaths n" by simp
    with Cons Node show ?thesis by auto
  qed
qed


lemma printTree_cong:
  assumes keys: "sort (map fst ps) = sort (map fst ps')"
    and kids: "\<And>k. k \<in> fst ` set ps \<Longrightarrow>
       \<exists>c c'. map_of ps k = Some c \<and> map_of ps' k = Some c'
         \<and> (props c = [] \<longleftrightarrow> props c' = []) \<and> (\<forall>i. printTree c i = printTree c' i)"
  shows "printTree (Node ps) ind = printTree (Node ps') ind"
proof -
  let ?keys = "sort (map fst ps)"
  have elem: "\<exists>index key c c'. x = (index, key) \<and> map_of ps key = Some c \<and> map_of ps' key = Some c'
         \<and> (props c = [] \<longleftrightarrow> props c' = []) \<and> (\<forall>i. printTree c i = printTree c' i)"
    if "x \<in> set (enumerate 0 ?keys)" for x
  proof -
    obtain index key where x: "x = (index, key)" by (cases x)
    with that have "index < length ?keys \<and> ?keys ! index = key"
      by (simp add: in_set_enumerate_eq)
    then have "key \<in> set ?keys" by (metis nth_mem)
    then have "key \<in> fst ` set ps" by simp
    from kids [OF this] x show ?thesis by blast
  qed
  show ?thesis
    unfolding printTree.simps [of ps ind] printTree.simps [of ps' ind] Let_def keys [symmetric]
  proof (rule fold_cong [OF refl refl])
    fix x
    assume "x \<in> set (enumerate 0 ?keys)"
    from elem [OF this] obtain index key c c' where x: "x = (index, key)"
      and c: "map_of ps key = Some c" and c': "map_of ps' key = Some c'"
      and leaf: "props c = [] \<longleftrightarrow> props c' = []" and sub: "\<And>i. printTree c i = printTree c' i"
      by blast
    show "(case x of (index, key) \<Rightarrow> \<lambda>output.
              case map_of ps key of
                None \<Rightarrow> output
              | Some sub \<Rightarrow>
                  if \<not> length (map fst (props sub)) = 0
                  then (output @ ind @ (if int index = int (length ?keys) - 1
                                        then LAST_CONNECTOR else MID_CONNECTOR) @ key
                                @ (if length (map fst (props sub)) = 0 then [] else [SLASH])
                                @ [NEWLINE])
                       @ printTree sub (ind @ (if int index = int (length ?keys) - 1
                                               then LAST_PREFIX else MID_PREFIX))
                  else output @ ind @ (if int index = int (length ?keys) - 1
                                        then LAST_CONNECTOR else MID_CONNECTOR) @ key
                                @ (if length (map fst (props sub)) = 0 then [] else [SLASH])
                                @ [NEWLINE])
          = (case x of (index, key) \<Rightarrow> \<lambda>output.
              case map_of ps' key of
                None \<Rightarrow> output
              | Some sub \<Rightarrow>
                  if \<not> length (map fst (props sub)) = 0
                  then (output @ ind @ (if int index = int (length ?keys) - 1
                                        then LAST_CONNECTOR else MID_CONNECTOR) @ key
                                @ (if length (map fst (props sub)) = 0 then [] else [SLASH])
                                @ [NEWLINE])
                       @ printTree sub (ind @ (if int index = int (length ?keys) - 1
                                               then LAST_PREFIX else MID_PREFIX))
                  else output @ ind @ (if int index = int (length ?keys) - 1
                                        then LAST_CONNECTOR else MID_CONNECTOR) @ key
                                @ (if length (map fst (props sub)) = 0 then [] else [SLASH])
                                @ [NEWLINE])"
      unfolding x using leaf by (simp add: c c' sub)
  qed
qed

lemma sort_distinct_set:
  "distinct xs \<Longrightarrow> distinct ys \<Longrightarrow> set xs = set ys \<Longrightarrow> sort xs = sort (ys :: 'a :: linorder list)"
  by (metis distinct_remdups_id sorted_list_of_set_sort_remdups)

lemma printTree_keyPaths:
  "wellFormed t \<Longrightarrow> wellFormed t' \<Longrightarrow> keyPaths t = keyPaths t' \<Longrightarrow> printTree t ind = printTree t' ind"
proof (induction t arbitrary: t' ind)
  case (Node ps)
  obtain ps' where t': "t' = Node ps'" by (cases t')
  have d: "distinct (map fst ps)" and d': "distinct (map fst ps')"
    using Node.prems(1,2) t' by simp_all
  have keyset: "fst ` set ps = fst ` set ps'"
    using Node.prems(3) single_in_keyPaths unfolding t' by blast
  have keys: "sort (map fst ps) = sort (map fst ps')"
    using d d' keyset by (intro sort_distinct_set) simp_all
  have kids: "\<exists>c c'. map_of ps k = Some c \<and> map_of ps' k = Some c'
         \<and> (props c = [] \<longleftrightarrow> props c' = []) \<and> (\<forall>i. printTree c i = printTree c' i)"
    if k: "k \<in> fst ` set ps" for k
  proof -
    from k obtain c where c: "map_of ps k = Some c"
      by (metis domD dom_map_of_conv_image_fst)
    from k keyset obtain c' where c': "map_of ps' k = Some c'"
      by (metis domD dom_map_of_conv_image_fst)
    have in_ps: "(k, c) \<in> set ps" using c by (rule map_of_SomeD)
    have in_ps': "(k, c') \<in> set ps'" using c' by (rule map_of_SomeD)
    have wc: "wellFormed c" using Node.prems(1) in_ps by auto
    have wc': "wellFormed c'" using Node.prems(2) in_ps' t' by auto
    have same: "keyPaths c = keyPaths c'"
      unfolding child_keyPaths [OF d c] child_keyPaths [OF d' c'] using Node.prems(3) t' by simp
    have "printTree c i = printTree c' i" for i
      using Node.IH [of "(k, c)" c c' i] in_ps wc wc' same by simp
    moreover have "props c = [] \<longleftrightarrow> props c' = []"
      using same keyPaths_empty by metis
    ultimately show ?thesis using c c' by blast
  qed
  show ?case unfolding t' by (rule printTree_cong [OF keys kids])
qed


lemma descend_in_keyPaths: "descend t ks = Some m \<Longrightarrow> ks \<noteq> [] \<Longrightarrow> ks \<in> keyPaths t"
proof (induction ks arbitrary: t)
  case Nil
  then show ?case by simp
next
  case (Cons k ks)
  obtain ps where t: "t = Node ps" by (cases t)
  from Cons.prems(1) obtain c where c: "map_of ps k = Some c" and d: "descend c ks = Some m"
    unfolding t descend_Cons by (auto split: option.splits)
  have in_ps: "(k, c) \<in> set ps" using c by (rule map_of_SomeD)
  show ?case
  proof (cases "ks = []")
    case True
    with in_ps show ?thesis unfolding t cons_in_keyPaths by blast
  next
    case False
    from Cons.IH [OF d False] in_ps show ?thesis unfolding t cons_in_keyPaths by blast
  qed
qed

lemma graft_fresh:
  assumes "descend t ks = Some m" and "map_of (props m) k = None" and "wellFormed t"
  shows "wellFormed (graft t ks k)
       \<and> keyPaths (graft t ks k) = insert (ks @ [k]) (keyPaths t)
       \<and> descend (graft t ks k) (ks @ [k]) = Some (Node [])"
  using assms
proof (induction ks arbitrary: t)
  case Nil
  obtain ps where t: "t = Node ps" by (cases t)
  from Nil.prems(1) have m: "m = Node ps" by (simp add: t descend_Nil)
  with Nil.prems(2) have fresh: "map_of ps k = None" by simp
  then have notin: "k \<notin> fst ` set ps" by (simp add: map_of_eq_None_iff)
  have "wellFormed (graft t [] k)"
    using Nil.prems(3) notin unfolding t by auto
  moreover have "keyPaths (graft t [] k) = insert ([] @ [k]) (keyPaths t)"
    unfolding t by auto
  moreover have "descend (graft t [] k) ([] @ [k]) = Some (Node [])"
    unfolding t using fresh by (simp add: descend_Cons descend_Nil map_of_append map_add_def)
  ultimately show ?case by blast
next
  case (Cons x xs)
  obtain ps where t: "t = Node ps" by (cases t)
  from Cons.prems(1) obtain c where c: "map_of ps x = Some c" and d: "descend c xs = Some m"
    unfolding t descend_Cons by (auto split: option.splits)
  have in_ps: "(x, c) \<in> set ps" using c by (rule map_of_SomeD)
  have dist: "distinct (map fst ps)" using Cons.prems(3) t by simp
  have uniq: "c' = c" if "(x, c') \<in> set ps" for c'
    using that dist c by (metis map_of_is_SomeI option.inject)
  have wc: "wellFormed c" using Cons.prems(3) in_ps t by auto
  from Cons.IH [OF d Cons.prems(2) wc]
  have ih_wf: "wellFormed (graft c xs k)"
    and ih_paths: "keyPaths (graft c xs k) = insert (xs @ [k]) (keyPaths c)"
    and ih_desc: "descend (graft c xs k) (xs @ [k]) = Some (Node [])"
    by blast+
  let ?f = "\<lambda>(k', c'). if k' = x then (k', graft c' xs k) else (k', c')"
  have g: "graft t (x # xs) k = Node (map ?f ps)" unfolding t by simp
  have fsts: "map fst (map ?f ps) = map fst ps"
    by (induction ps) (auto split: prod.splits)
  have mem: "(k', c') \<in> set (map ?f ps) \<longleftrightarrow>
             (k' = x \<and> c' = graft c xs k) \<or> (k' \<noteq> x \<and> (k', c') \<in> set ps)" for k' c'
  proof
    assume "(k', c') \<in> set (map ?f ps)"
    then obtain k0 c0 where "(k0, c0) \<in> set ps" and "(k', c') = ?f (k0, c0)"
      by auto
    then show "(k' = x \<and> c' = graft c xs k) \<or> (k' \<noteq> x \<and> (k', c') \<in> set ps)"
      using uniq by (auto split: if_splits)
  next
    assume "(k' = x \<and> c' = graft c xs k) \<or> (k' \<noteq> x \<and> (k', c') \<in> set ps)"
    then consider "k' = x" "c' = graft c xs k" | "k' \<noteq> x" "(k', c') \<in> set ps" by blast
    then show "(k', c') \<in> set (map ?f ps)"
    proof cases
      case 1
      have "?f (x, c) \<in> ?f ` set ps" using in_ps by (rule imageI)
      with 1 show ?thesis by simp
    next
      case 2
      have "?f (k', c') \<in> ?f ` set ps" using 2(2) by (rule imageI)
      with 2(1) show ?thesis by simp
    qed
  qed
  have wf: "wellFormed (graft t (x # xs) k)"
  proof -
    have "wellFormed c'" if "(k', c') \<in> set (map ?f ps)" for k' c'
    proof -
      from that consider "c' = graft c xs k" | "(k', c') \<in> set ps"
        unfolding mem by blast
      then show ?thesis
      proof cases
        case 1
        with ih_wf show ?thesis by simp
      next
        case 2
        with Cons.prems(3) t show ?thesis by auto
      qed
    qed
    then have "\<forall>(k', c') \<in> set (map ?f ps). wellFormed c'"
      by blast
    with dist show ?thesis
      unfolding g wellFormed.simps fsts by blast
  qed
  have paths: "keyPaths (graft t (x # xs) k) = insert ((x # xs) @ [k]) (keyPaths t)"
  proof (intro set_eqI iffI)
    fix w assume w: "w \<in> keyPaths (graft t (x # xs) k)"
    have "w \<noteq> []" using w by (cases "graft t (x # xs) k") auto
    then obtain k' w' where w': "w = k' # w'" by (cases w) auto
    from w obtain c' where "(k', c') \<in> set (map ?f ps)" and tail: "w' = [] \<or> w' \<in> keyPaths c'"
      unfolding g w' cons_in_keyPaths by blast
    then consider "k' = x" "c' = graft c xs k" | "k' \<noteq> x" "(k', c') \<in> set ps"
      unfolding mem by blast
    then show "w \<in> insert ((x # xs) @ [k]) (keyPaths t)"
    proof cases
      case 1
      with tail ih_paths have "w' = [] \<or> w' = xs @ [k] \<or> w' \<in> keyPaths c" by auto
      with 1(1) in_ps show ?thesis unfolding w' t cons_in_keyPaths by auto
    next
      case 2
      with tail show ?thesis unfolding w' t cons_in_keyPaths by auto
    qed
  next
    fix w assume "w \<in> insert ((x # xs) @ [k]) (keyPaths t)"
    then consider "w = x # (xs @ [k])" | "w \<in> keyPaths t" by auto
    then show "w \<in> keyPaths (graft t (x # xs) k)"
    proof cases
      case 1
      have "(x, graft c xs k) \<in> set (map ?f ps)" unfolding mem by simp
      moreover have "xs @ [k] \<in> keyPaths (graft c xs k)" using ih_paths by simp
      ultimately show ?thesis unfolding 1 g cons_in_keyPaths by blast
    next
      case 2
      have "w \<noteq> []" using 2 by (cases t) auto
      then obtain k' w' where w': "w = k' # w'" by (cases w) auto
      from 2 obtain c' where in': "(k', c') \<in> set ps" and tail: "w' = [] \<or> w' \<in> keyPaths c'"
        unfolding t w' cons_in_keyPaths by blast
      show ?thesis
      proof (cases "k' = x")
        case True
        with in' uniq have "c' = c" by simp
        with tail ih_paths have "w' = [] \<or> w' \<in> keyPaths (graft c xs k)" by auto
        moreover have "(x, graft c xs k) \<in> set (map ?f ps)" unfolding mem by simp
        ultimately show ?thesis unfolding w' g cons_in_keyPaths True by blast
      next
        case False
        with in' have "(k', c') \<in> set (map ?f ps)" unfolding mem by simp
        with tail show ?thesis unfolding w' g cons_in_keyPaths by blast
      qed
    qed
  qed
  have "map_of (map ?f ps) x = Some (graft c xs k)"
  proof (rule map_of_is_SomeI)
    show "distinct (map fst (map ?f ps))" unfolding fsts by (rule dist)
    show "(x, graft c xs k) \<in> set (map ?f ps)" unfolding mem by simp
  qed
  then have desc: "descend (graft t (x # xs) k) ((x # xs) @ [k]) = Some (Node [])"
    unfolding g using ih_desc by (simp add: descend_Cons)
  from wf paths desc show ?case by blast
qed


lemma getProp_plain:
  assumes "objectPrototype (shared h) = Node []" and "plainSegment k"
  shows "getProp h (InTree ks) k =
           (if hasOwn h (InTree ks) k then Has (Ref (InTree (ks @ [k]))) else Has Undefined)"
  using assms
  by (simp add: getProp_def inherited_def hasOwn_def objectAt_def descend_Nil child_def
      plainSegment_def)

lemma visit_plain:
  assumes proto: "objectPrototype (shared h) = Node []"
    and plain: "plainSegment k"
    and at: "descend (treeRoot h) ks = Some m"
    and wf: "wellFormed (treeRoot h)"
  shows "\<exists>h'. visit h (Ref (InTree ks)) k = Goes h' (Ref (InTree (ks @ [k])))
           \<and> shared h' = shared h
           \<and> wellFormed (treeRoot h')
           \<and> keyPaths (treeRoot h') = insert (ks @ [k]) (keyPaths (treeRoot h))
           \<and> descend (treeRoot h') (ks @ [k]) \<noteq> None"
proof (cases "map_of (props m) k")
  case None
  let ?h' = "h\<lparr>treeRoot := graft (treeRoot h) ks k\<rparr>"
  from graft_fresh [OF at None wf]
  have g_wf: "wellFormed (graft (treeRoot h) ks k)"
    and g_paths: "keyPaths (graft (treeRoot h) ks k) = insert (ks @ [k]) (keyPaths (treeRoot h))"
    and g_desc: "descend (graft (treeRoot h) ks k) (ks @ [k]) = Some (Node [])"
    by blast+
  have "\<not> hasOwn h (InTree ks) k"
    using at None by (simp add: hasOwn_def objectAt_def)
  then have unfound: "getProp h (InTree ks) k = Has Undefined"
    using getProp_plain [OF proto plain] by simp
  have "descend (graft (treeRoot h) ks k) ks \<noteq> None
        \<and> (\<forall>m'. descend (graft (treeRoot h) ks k) ks = Some m' \<longrightarrow> map_of (props m') k \<noteq> None)"
    using g_desc by (auto simp: descend_append split: option.splits)
  then have "hasOwn ?h' (InTree ks) k"
    by (auto simp: hasOwn_def objectAt_def split: option.splits)
  moreover have "objectPrototype (shared ?h') = Node []"
    using proto by simp
  ultimately have refound: "getProp ?h' (InTree ks) k = Has (Ref (InTree (ks @ [k])))"
    using getProp_plain [OF _ plain, of ?h' ks] by simp
  have "visit h (Ref (InTree ks)) k = Goes ?h' (Ref (InTree (ks @ [k])))"
    using unfound refound by (simp add: visit_def defineProp_def Let_def)
  with g_wf g_paths g_desc show ?thesis by simp
next
  case (Some c)
  have "hasOwn h (InTree ks) k"
    using at Some by (simp add: hasOwn_def objectAt_def)
  then have own: "getProp h (InTree ks) k = Has (Ref (InTree (ks @ [k])))"
    using getProp_plain [OF proto plain] by simp
  have here: "descend (treeRoot h) (ks @ [k]) = Some c"
    using at Some by (simp add: descend_append)
  then have "ks @ [k] \<in> keyPaths (treeRoot h)"
    by (rule descend_in_keyPaths) simp
  then have "keyPaths (treeRoot h) = insert (ks @ [k]) (keyPaths (treeRoot h))"
    by blast
  moreover have "visit h (Ref (InTree ks)) k = Goes h (Ref (InTree (ks @ [k])))"
    using own by (simp add: visit_def)
  ultimately show ?thesis using wf here by auto
qed

lemma insertParts_plain:
  assumes "objectPrototype (shared h) = Node []"
    and "list_all plainSegment parts"
    and "descend (treeRoot h) ks \<noteq> None"
    and "wellFormed (treeRoot h)"
  shows "\<exists>h'. insertParts host h (Ref (InTree ks)) parts = (h', None)
           \<and> shared h' = shared h
           \<and> wellFormed (treeRoot h')
           \<and> keyPaths (treeRoot h') =
               keyPaths (treeRoot h) \<union> (@) ks ` (set (prefixes parts) - {[]})"
  using assms
proof (induction parts arbitrary: h ks)
  case Nil
  then show ?case by simp
next
  case (Cons p parts)
  from Cons.prems(3) obtain m where at: "descend (treeRoot h) ks = Some m" by blast
  from Cons.prems(2) have plain: "plainSegment p" and rest: "list_all plainSegment parts"
    by simp_all
  from visit_plain [OF Cons.prems(1) plain at Cons.prems(4)]
  obtain h1 where v: "visit h (Ref (InTree ks)) p = Goes h1 (Ref (InTree (ks @ [p])))"
    and s1: "shared h1 = shared h"
    and w1: "wellFormed (treeRoot h1)"
    and k1: "keyPaths (treeRoot h1) = insert (ks @ [p]) (keyPaths (treeRoot h))"
    and d1: "descend (treeRoot h1) (ks @ [p]) \<noteq> None"
    by blast
  have p1: "objectPrototype (shared h1) = Node []"
    using s1 Cons.prems(1) by simp
  from Cons.IH [OF p1 rest d1 w1]
  obtain h' where i: "insertParts host h1 (Ref (InTree (ks @ [p]))) parts = (h', None)"
    and s': "shared h' = shared h1"
    and w': "wellFormed (treeRoot h')"
    and k': "keyPaths (treeRoot h') =
               keyPaths (treeRoot h1) \<union> (@) (ks @ [p]) ` (set (prefixes parts) - {[]})"
    by blast
  have "insertParts host h (Ref (InTree ks)) (p # parts) = (h', None)"
    using v i by simp
  moreover have "keyPaths (treeRoot h') =
      keyPaths (treeRoot h) \<union> (@) ks ` (set (prefixes (p # parts)) - {[]})"
    unfolding k' k1 by (auto simp: image_iff)
  ultimately show ?case using s' s1 w' by auto
qed

lemma insertPaths_plain:
  assumes "objectPrototype (shared h) = Node []"
    and "list_all plainPath ps"
    and "wellFormed (treeRoot h)"
  shows "\<exists>h'. insertPaths host h ps = (h', None)
           \<and> shared h' = shared h
           \<and> wellFormed (treeRoot h')
           \<and> keyPaths (treeRoot h') =
               keyPaths (treeRoot h) \<union> (\<Union>p \<in> set ps. set (prefixes (split_on SLASH p)) - {[]})"
  using assms
proof (induction ps arbitrary: h)
  case Nil
  then show ?case by simp
next
  case (Cons p ps)
  from Cons.prems(2) have "plainPath p" and rest: "list_all plainPath ps"
    by simp_all
  then have plain: "list_all plainSegment (split_on SLASH p)"
    by (simp add: plainPath_def)
  have root: "descend (treeRoot h) [] \<noteq> None" by (simp add: descend_Nil)
  from insertParts_plain [OF Cons.prems(1) plain root Cons.prems(3), of host]
  obtain h1 where i1: "insertParts host h (Ref (InTree [])) (split_on SLASH p) = (h1, None)"
    and s1: "shared h1 = shared h"
    and w1: "wellFormed (treeRoot h1)"
    and k1: "keyPaths (treeRoot h1) =
               keyPaths (treeRoot h) \<union> (@) [] ` (set (prefixes (split_on SLASH p)) - {[]})"
    by blast
  have p1: "objectPrototype (shared h1) = Node []"
    using s1 Cons.prems(1) by simp
  from Cons.IH [OF p1 rest w1]
  obtain h' where i: "insertPaths host h1 ps = (h', None)"
    and s': "shared h' = shared h1"
    and w': "wellFormed (treeRoot h')"
    and k': "keyPaths (treeRoot h') =
               keyPaths (treeRoot h1) \<union> (\<Union>p \<in> set ps. set (prefixes (split_on SLASH p)) - {[]})"
    by blast
  have "insertPaths host h (p # ps) = (h', None)"
    using i1 i by simp
  moreover have "keyPaths (treeRoot h') =
      keyPaths (treeRoot h) \<union> (\<Union>p \<in> set (p # ps). set (prefixes (split_on SLASH p)) - {[]})"
    unfolding k' k1 by auto
  ultimately show ?case using s' s1 w' by auto
qed

text \<open>
  The walk carries on from a function of \<open>Object.prototype\<close>: a segment that follows a
  directory named \<open>constructor\<close> or \<open>toString\<close> is written on the function, nothing becomes
  a property of the tree below that directory, and the call returns, whatever the host.
\<close>

lemma generateTreeString_through_function:
  "snd (generateTreeString host freshRealm [js ''constructor/a.ts'']) = Inr []
   \<and> snd (generateTreeString host freshRealm [js ''src/toString/impl.ts'', js ''src/a.ts''])
       = Inr (LAST_CONNECTOR @ js ''src/'' @ [NEWLINE] @ LAST_PREFIX @ LAST_CONNECTOR @ js ''a.ts'')"
  by code_simp

text \<open>
  Claim C7 says that \<open>generateTreeString\<close> is pure, deterministic and gives the same string
  for every order of the same paths. The code keeps the tree in objects made by \<open>{}\<close>,
  and a segment named \<open>__proto__\<close> leads the walk from such an object to
  \<open>Object.prototype\<close>. On a fresh realm, the paths \<open>__proto__/foo\<close> and \<open>foo/bar\<close> give the
  empty string in this order and a tree of two lines in the other; the call with
  \<open>__proto__/foo\<close> leaves a property \<open>foo\<close> on \<open>Object.prototype\<close>; and after it the path
  \<open>foo\<close> alone, which renders as one line on a fresh realm, renders as the empty string.
  No host has a say in it.
\<close>

theorem generateTreeString_order_dependent:
  "snd (generateTreeString host freshRealm [js ''__proto__/foo'', js ''foo/bar'']) = Inr []
   \<and> snd (generateTreeString host freshRealm [js ''foo/bar'', js ''__proto__/foo''])
       = Inr (LAST_CONNECTOR @ js ''foo/'' @ [NEWLINE] @ LAST_PREFIX @ LAST_CONNECTOR @ js ''bar'')
   \<and> objectPrototype (fst (generateTreeString host freshRealm [js ''__proto__/foo'']))
       = Node [(js ''foo'', Node [])]
   \<and> snd (generateTreeString host freshRealm [js ''foo'']) = Inr (LAST_CONNECTOR @ js ''foo'')
   \<and> snd (generateTreeString host (freshRealm\<lparr>objectPrototype := Node [(js ''foo'', Node [])]\<rparr>)
            [js ''foo'']) = Inr []"
  by code_simp

text \<open>
  Where no segment names something that an empty object inherits, and \<open>Object.prototype\<close>
  has nothing added, the defect does not show: the call returns, leaves the realm as it
  was, and the string is the same for every list with the same paths, in any order and
  with any repetitions.
\<close>

lemma generateTreeString_plain_paths:
  assumes "objectPrototype realm0 = Node []" and "list_all plainPath ps" and "set qs = set ps"
  shows "generateTreeString host realm0 qs = generateTreeString host realm0 ps
         \<and> fst (generateTreeString host realm0 ps) = realm0
         \<and> (\<exists>rendered. snd (generateTreeString host realm0 ps) = Inr rendered)"
proof -
  let ?h = "\<lparr>treeRoot = Node [], shared = realm0\<rparr>"
  have plain_qs: "list_all plainPath qs"
    using assms by (simp add: list_all_iff)
  from insertPaths_plain [of ?h ps host] assms(1,2)
  obtain hp where ip: "insertPaths host ?h ps = (hp, None)"
    and sp: "shared hp = realm0"
    and wp: "wellFormed (treeRoot hp)"
    and kp: "keyPaths (treeRoot hp) = (\<Union>p \<in> set ps. set (prefixes (split_on SLASH p)) - {[]})"
    by auto
  from insertPaths_plain [of ?h qs host] assms(1) plain_qs
  obtain hq where iq: "insertPaths host ?h qs = (hq, None)"
    and sq: "shared hq = realm0"
    and wq: "wellFormed (treeRoot hq)"
    and kq: "keyPaths (treeRoot hq) = (\<Union>p \<in> set qs. set (prefixes (split_on SLASH p)) - {[]})"
    by auto
  have "keyPaths (treeRoot hq) = keyPaths (treeRoot hp)"
    unfolding kp kq assms(3) ..
  with wq wp have "printTree (treeRoot hq) [] = printTree (treeRoot hp) []"
    by (rule printTree_keyPaths)
  then show ?thesis
    using ip iq sp sq by (simp add: generateTreeString_def)
qed

text \<open>
  The walker hands the paths of the kept files to \<open>generateTreeString\<close> in archive order,
  so the order of two entries of an archive can decide the tree that \<open>processZipFile\<close>
  returns.
\<close>

lemma processZipFile_tree_depends_on_order:
  "map_sum id tree (outcome (processZipFile asciiToLowerCase host freshRealm
     (Some [\<lparr>name = js ''__proto__/a.md'', dir = False, decoded = Some (js ''x'')\<rparr>,
            \<lparr>name = js ''a.md/b.md'', dir = False, decoded = Some (js ''y'')\<rparr>])))
   = Inr []
   \<and> map_sum id tree (outcome (processZipFile asciiToLowerCase host freshRealm
     (Some [\<lparr>name = js ''a.md/b.md'', dir = False, decoded = Some (js ''y'')\<rparr>,
            \<lparr>name = js ''__proto__/a.md'', dir = False, decoded = Some (js ''x'')\<rparr>])))
   = Inr (LAST_CONNECTOR @ js ''a.md/'' @ [NEWLINE] @ LAST_PREFIX @ LAST_CONNECTOR @ js ''b.md'')"
  by code_simp

text \<open>
  A kept file below a directory named like a function of \<open>Object.prototype\<close> does not
  stop the run: \<open>processZipFile\<close> returns its files and statistics, with a tree that lacks
  what was written on the function.
\<close>

lemma processZipFile_returns_through_function:
  "outcome (processZipFile asciiToLowerCase host freshRealm
     (Some [\<lparr>name = js ''constructor/a.ts'', dir = False, decoded = Some (js ''hi'')\<rparr>]))
   = Inr \<lparr>files = [\<lparr>path = js ''constructor/a.ts'', content = js ''hi'', extension = js ''ts''\<rparr>],
           tree = [],
           stats = \<lparr>fileCount = 1, totalSize = 2, tokenEstimate = 1\<rparr>\<rparr>"
  by code_simp

end
